theory Spec2Isabelle
  imports Complex_Main "HOL-Library.Word" "HOL-Library.Log_Nat"
begin

unbundle bit_operations_syntax

section \<open>Python values\<close>

text \<open>
  Python integers are unbounded and are modelled as \<^typ>\<open>int\<close>: \<open>x >> n\<close> is
  \<^term>\<open>drop_bit n x\<close> (floor division by a power of two, also for negative \<open>x\<close>),
  \<open>x << n\<close> is \<^term>\<open>push_bit n x\<close>, and \<open>&\<close>, \<open>|\<close> are the two's complement
  operations \<open>AND\<close>, \<open>OR\<close> of \<^typ>\<open>int\<close>.

  The exceptions that the modelled code can raise.
\<close>

datatype error =
    ValueError | NameError | AttributeError | ZeroDivisionError | IndexError
  | OverflowError | MemoryError

subsection \<open>Floats\<close>

text \<open>
  A finite Python float is an IEEE 754 binary64 value; it is modelled as the rational
  number it denotes. Every arithmetic operation computes the exact result and rounds it
  to the nearest value with a 53 bit significand, ties to even (\<open>fl\<close>). The exponent
  range of binary64 is not modelled: the model is that of the source for operands and
  results of magnitude between \<open>2 ^ -1022\<close> and \<open>2 ^ 1024\<close> (and zero), which covers
  every computation below on image dimensions (C integers in Pillow) and on channel
  values.
\<close>

definition pow2 :: "int \<Rightarrow> rat" where
  "pow2 e = (if 0 \<le> e then 2 ^ nat e else 1 / 2 ^ nat (- e))"

definition round_half_even :: "rat \<Rightarrow> int" where
  "round_half_even x =
     (let f = \<lfloor>x\<rfloor>; d = x - of_int f
      in if d < 1 / 2 then f
         else if 1 / 2 < d then f + 1
         else if even f then f else f + 1)"

text \<open>The exponent \<open>e\<close> with \<open>2 ^ e \<le> q < 2 ^ (e + 1)\<close>, for \<open>0 < q\<close>.\<close>

definition binade :: "rat \<Rightarrow> int" where
  "binade q = (if 1 \<le> q then bitlen \<lfloor>q\<rfloor> - 1 else - bitlen (\<lceil>1 / q\<rceil> - 1))"

definition fl :: "rat \<Rightarrow> rat" where
  "fl q =
     (if q = 0 then 0
      else let e = binade \<bar>q\<bar> - 52
           in of_int (round_half_even (q / pow2 e)) * pow2 e)"

text \<open>\<open>a / b\<close> on two integers: true division, correctly rounded.\<close>

definition int_truediv :: "int \<Rightarrow> int \<Rightarrow> error + rat" where
  "int_truediv a b = (if b = 0 then Inl ZeroDivisionError else Inr (fl (of_int a / of_int b)))"

text \<open>\<open>x / y\<close>, \<open>x * y\<close>, \<open>x + y\<close> and \<open>x - y\<close> on floats; an integer operand is converted first.\<close>

definition float_truediv :: "rat \<Rightarrow> rat \<Rightarrow> error + rat" where
  "float_truediv x y = (if y = 0 then Inl ZeroDivisionError else Inr (fl (x / y)))"

definition float_mul :: "rat \<Rightarrow> rat \<Rightarrow> rat" where
  "float_mul x y = fl (x * y)"

definition float_add :: "rat \<Rightarrow> rat \<Rightarrow> rat" where
  "float_add x y = fl (x + y)"

definition float_sub :: "rat \<Rightarrow> rat \<Rightarrow> rat" where
  "float_sub x y = fl (x - y)"

definition float_of_int :: "int \<Rightarrow> rat" where
  "float_of_int n = fl (of_int n)"

text \<open>\<open>int(x)\<close> on a float truncates towards zero.\<close>

definition int_of_float :: "rat \<Rightarrow> int" where
  "int_of_float x = (if 0 \<le> x then \<lfloor>x\<rfloor> else \<lceil>x\<rceil>)"

section \<open>The board driver (whisplaydriver.py)\<close>

text \<open>
  The driver talks to the hardware through RPi.GPIO and spidev. Each call that reaches the
  hardware is one event of a trace kept in the state; the calls are taken to succeed,
  except \<open>ChangeDutyCycle\<close>, which RPi.GPIO refuses with a \<open>ValueError\<close> for a duty
  cycle outside \<open>0.0 .. 100.0\<close>.
\<close>

datatype event =
    Gpio_output int bool
  | Spi_xfer2 "int list"
  | Spi_writebytes2 "int list"
  | Spi_writebytes "int list"
  | Pwm_start int rat
  | Pwm_ChangeDutyCycle int rat
  | Pwm_stop int
  | Sleep rat

text \<open>A \<open>GPIO.PWM\<close> object: its pin and its frequency.\<close>

datatype pwm = PWM int int

fun pwm_pin :: "pwm \<Rightarrow> int" where
  "pwm_pin (PWM p f) = p"

definition LCD_WIDTH :: int where "LCD_WIDTH = 240"
definition LCD_HEIGHT :: int where "LCD_HEIGHT = 280"
definition DC_PIN :: int where "DC_PIN = 13"
definition RST_PIN :: int where "RST_PIN = 7"
definition RED_PIN :: int where "RED_PIN = 22"
definition GREEN_PIN :: int where "GREEN_PIN = 18"
definition BLUE_PIN :: int where "BLUE_PIN = 16"

text \<open>
  The attributes of a \<open>WhisPlayBoard\<close> that the modelled methods read or write.
  \<open>_current_r\<close>, \<open>_current_g\<close> and \<open>_current_b\<close> are assigned by the constructor only
  when the RGB pins were set up, hence optional. \<open>has_writebytes2\<close> says whether the
  installed spidev has \<open>writebytes2\<close>; \<open>trace\<close> is the sequence of hardware calls made
  so far (\<open>GPIO.HIGH\<close> is \<open>True\<close>).
\<close>

record board =
  gpio_initialized :: bool
  backlight_mode :: bool
  backlight_pwm :: "pwm option"
  red_pwm :: "pwm option"
  green_pwm :: "pwm option"
  blue_pwm :: "pwm option"
  current_r :: "int option"
  current_g :: "int option"
  current_b :: "int option"
  has_writebytes2 :: bool
  trace :: "event list"

definition emit :: "board \<Rightarrow> event list \<Rightarrow> board" where
  "emit s es = s\<lparr>trace := trace s @ es\<rparr>"

subsection \<open>Transport\<close>

text \<open>
  \<open>_send_data\<close>: data/command line high, then \<open>writebytes2\<close> with the whole buffer; with
  a spidev that lacks it (\<open>AttributeError\<close>), \<open>writebytes\<close> on the slices
  \<open>data[i : i + 4096]\<close> for \<open>i\<close> in \<open>range(0, len(data), 4096)\<close>.
\<close>

definition chunks :: "nat \<Rightarrow> 'a list \<Rightarrow> 'a list list" where
  "chunks c xs = map (\<lambda>k. take c (drop (k * c) xs)) [0 ..< (length xs + c - 1) div c]"

definition send_data :: "board \<Rightarrow> int list \<Rightarrow> board" where
  "send_data s data =
     (let s1 = emit s [Gpio_output DC_PIN True]
      in if has_writebytes2 s1 then emit s1 [Spi_writebytes2 data]
         else emit s1 (map Spi_writebytes (chunks 4096 data)))"

definition send_command :: "board \<Rightarrow> int \<Rightarrow> int list \<Rightarrow> board" where
  "send_command s cmd args =
     (let s1 = emit (emit s [Gpio_output DC_PIN False]) [Spi_xfer2 [cmd]]
      in if args \<noteq> [] then send_data (emit s1 [Gpio_output DC_PIN True]) args else s1)"

subsection \<open>Panel controller\<close>

definition set_window :: "board \<Rightarrow> int \<Rightarrow> int \<Rightarrow> int \<Rightarrow> int \<Rightarrow> int \<Rightarrow> board" where
  "set_window s x0 y0 x1 y1 use_horizontal =
     (let s1 =
        (if use_horizontal \<in> {0, 1} then
           send_command
             (send_command s 0x2A [drop_bit 8 x0, x0 AND 0xFF, drop_bit 8 x1, x1 AND 0xFF])
             0x2B [drop_bit 8 (y0 + 20), (y0 + 20) AND 0xFF, drop_bit 8 (y1 + 20), (y1 + 20) AND 0xFF]
         else if use_horizontal \<in> {2, 3} then
           send_command
             (send_command s 0x2A
                [drop_bit 8 (x0 + 20), (x0 + 20) AND 0xFF, drop_bit 8 (x1 + 20), (x1 + 20) AND 0xFF])
             0x2B [drop_bit 8 y0, y0 AND 0xFF, drop_bit 8 y1, y1 AND 0xFF]
         else s)
      in send_command s1 0x2C [])"

text \<open>\<open>draw_pixel\<close> calls \<open>set_window\<close> with the default orientation \<open>0\<close>.\<close>

definition draw_pixel :: "board \<Rightarrow> int \<Rightarrow> int \<Rightarrow> int \<Rightarrow> board" where
  "draw_pixel s x y color =
     (if LCD_WIDTH \<le> x \<or> LCD_HEIGHT \<le> y then s
      else send_data (set_window s x y x y 0) [drop_bit 8 color AND 0xFF, color AND 0xFF])"

text \<open>
  \<open>draw_image\<close> raises \<open>ValueError\<close> before it touches the hardware; the result is the
  exception, if any, and the state the call leaves.
\<close>

definition draw_image ::
  "board \<Rightarrow> int \<Rightarrow> int \<Rightarrow> int \<Rightarrow> int \<Rightarrow> int list \<Rightarrow> error option \<times> board" where
  "draw_image s x y w h pixel_data =
     (if LCD_WIDTH < x + w \<or> LCD_HEIGHT < y + h then (Some ValueError, s)
      else (None, send_data (set_window s x y (x + w - 1) (y + h - 1) 0) pixel_data))"

subsection \<open>Lighting\<close>

text \<open>
  \<open>ChangeDutyCycle\<close> of RPi.GPIO: a \<open>ValueError\<close> for a duty cycle outside
  \<open>0.0 .. 100.0\<close>, otherwise the new duty cycle reaches the pin.
\<close>

definition ChangeDutyCycle :: "board \<Rightarrow> pwm \<Rightarrow> rat \<Rightarrow> error option \<times> board" where
  "ChangeDutyCycle s p dc =
     (if dc < 0 \<or> 100 < dc then (Some ValueError, s)
      else (None, emit s [Pwm_ChangeDutyCycle (pwm_pin p) dc]))"


text \<open>The duty cycle \<open>100 - (v / 255 * 100)\<close> of a channel value.\<close>

definition rgb_duty :: "int \<Rightarrow> rat" where
  "rgb_duty v =
     (case int_truediv v 255 of
        Inl e \<Rightarrow> 0
      | Inr q \<Rightarrow> float_sub (float_of_int 100) (float_mul q (float_of_int 100)))"

text \<open>
  \<open>set_rgb\<close>. An exception of one of the three \<open>ChangeDutyCycle\<close> calls is caught: the
  rest of the \<open>try\<close> block, with the assignments to \<open>_current_r\<close>, \<open>_current_g\<close> and
  \<open>_current_b\<close>, is skipped.
\<close>

definition set_rgb :: "board \<Rightarrow> int \<Rightarrow> int \<Rightarrow> int \<Rightarrow> board" where
  "set_rgb s r g b =
     (case (red_pwm s, green_pwm s, blue_pwm s) of
        (Some rp, Some gp, Some bp) \<Rightarrow>
          (case ChangeDutyCycle s rp (rgb_duty r) of
             (Some e, s1) \<Rightarrow> s1
           | (None, s1) \<Rightarrow>
          (case ChangeDutyCycle s1 gp (rgb_duty g) of
             (Some e, s2) \<Rightarrow> s2
           | (None, s2) \<Rightarrow>
          (case ChangeDutyCycle s2 bp (rgb_duty b) of
             (Some e, s3) \<Rightarrow> s3
           | (None, s3) \<Rightarrow>
               s3\<lparr>current_r := Some r, current_g := Some g, current_b := Some b\<rparr>)))
      | _ \<Rightarrow> s)"

text \<open>\<open>time.sleep\<close> raises \<open>ValueError\<close> for a negative length.\<close>

definition sleep :: "board \<Rightarrow> rat \<Rightarrow> error option \<times> board" where
  "sleep s secs = (if secs < 0 then (Some ValueError, s) else (None, emit s [Sleep secs]))"

text \<open>\<open>int(self._current_r + _ * r_step)\<close>, then \<open>max(0, min(255, r_interim))\<close>.\<close>

definition interim :: "int \<Rightarrow> int \<Rightarrow> rat \<Rightarrow> int" where
  "interim current i step =
     int_of_float (float_add (float_of_int current) (float_mul (float_of_int i) step))"

definition clamp255 :: "int \<Rightarrow> int" where
  "clamp255 v = max 0 (min 255 v)"

text \<open>
  The loop of \<open>set_rgb_fade\<close> over the indices that are left. Each pass reads the
  attributes \<open>_current_r\<close>, \<open>_current_g\<close>, \<open>_current_b\<close> of the board as they are then.
  The result is the exception, if any, the arguments of the calls of \<open>set_rgb\<close> in
  order, and the state.
\<close>

fun fade_loop ::
  "board \<Rightarrow> rat \<Rightarrow> rat \<Rightarrow> rat \<Rightarrow> rat \<Rightarrow> int list \<Rightarrow>
   error option \<times> (int \<times> int \<times> int) list \<times> board" where
  "fade_loop s r_step g_step b_step delay_ms [] = (None, [], s)"
| "fade_loop s r_step g_step b_step delay_ms (i # is) =
     (case (current_r s, current_g s, current_b s) of
        (Some cr, Some cg, Some cb) \<Rightarrow>
          (let v = (clamp255 (interim cr i r_step), clamp255 (interim cg i g_step),
                    clamp255 (interim cb i b_step));
               s1 = set_rgb s (fst v) (fst (snd v)) (snd (snd v))
           in case float_truediv delay_ms (float_of_int 1000) of
                Inl e \<Rightarrow> (Some e, [v], s1)
              | Inr secs \<Rightarrow>
                  (case sleep s1 secs of
                     (Some e, s2) \<Rightarrow> (Some e, [v], s2)
                   | (None, s2) \<Rightarrow>
                       (case fade_loop s2 r_step g_step b_step delay_ms is of
                          (e, vs, s3) \<Rightarrow> (e, v # vs, s3))))
      | _ \<Rightarrow> (Some AttributeError, [], s))"

definition set_rgb_fade ::
  "board \<Rightarrow> int \<Rightarrow> int \<Rightarrow> int \<Rightarrow> int \<Rightarrow> error option \<times> (int \<times> int \<times> int) list \<times> board" where
  "set_rgb_fade s r_target g_target b_target duration_ms =
     (let steps = 20 in
      case int_truediv duration_ms steps of
        Inl e \<Rightarrow> (Some e, [], s)
      | Inr delay_ms \<Rightarrow>
          (case (current_r s, current_g s, current_b s) of
             (Some cr, Some cg, Some cb) \<Rightarrow>
               (case (int_truediv (r_target - cr) steps, int_truediv (g_target - cg) steps,
                      int_truediv (b_target - cb) steps) of
                  (Inr r_step, Inr g_step, Inr b_step) \<Rightarrow>
                    fade_loop s r_step g_step b_step delay_ms [0 .. steps]
                | _ \<Rightarrow> (Some ZeroDivisionError, [], s))
           | _ \<Rightarrow> (Some AttributeError, [], s)))"

section \<open>The display plugin (whisplay.py)\<close>

subsection \<open>Pillow images\<close>

text \<open>
  An RGB image of Pillow: its size and its pixels, three bytes each, at the coordinates
  inside the size. Image sizes are C integers in Pillow, so the width and the height of
  an image are at most \<open>2 ^ 31 - 1\<close>.
\<close>

type_synonym rgb8 = "8 word \<times> 8 word \<times> 8 word"

record image =
  width :: int
  height :: int
  pixels :: "int \<Rightarrow> int \<Rightarrow> rgb8"

text \<open>
  \<open>render\<close> takes a numpy array or a Pillow image. \<open>PilImage img\<close> is a Pillow image
  whose conversion \<open>canvas.convert('RGB')\<close> is \<open>img\<close>.
\<close>

datatype canvas = NdArray | PilImage image

text \<open>
  What \<open>render\<close> uses of Pillow. \<open>resize\<close> returns a copy for the size the image has
  already. Otherwise the size goes to the C core as two C integers, and a number that
  does not fit raises \<open>OverflowError\<close>; a size below one pixel is refused with a
  \<open>ValueError\<close>; and the new image has to be built, which fails with \<open>MemoryError\<close>
  when the core refuses the size or the machine has no room for it. Whether an image of
  a size can be built is the parameter \<open>alloc\<close>; the pixels of the new image are those
  that the resampling filter \<open>resample\<close> computes.
  \<open>crop\<close> returns the box as an image of its own, black where the box leaves the image.
  \<open>getpixel\<close> raises \<open>IndexError\<close> outside the image, a negative coordinate counting
  from the far edge.
\<close>

definition C_INT_MAX :: int where "C_INT_MAX = 2147483647"
definition C_INT_MIN :: int where "C_INT_MIN = - 2147483648"

type_synonym resampler = "image \<Rightarrow> int \<Rightarrow> int \<Rightarrow> int \<Rightarrow> int \<Rightarrow> rgb8"

type_synonym allocator = "int \<Rightarrow> int \<Rightarrow> bool"

definition pil_resize ::
  "resampler \<Rightarrow> allocator \<Rightarrow> image \<Rightarrow> int \<Rightarrow> int \<Rightarrow> error + image" where
  "pil_resize resample alloc img w h =
     (if width img = w \<and> height img = h then
        (if alloc w h then Inr img else Inl MemoryError)
      else if w < C_INT_MIN \<or> C_INT_MAX < w \<or> h < C_INT_MIN \<or> C_INT_MAX < h then Inl OverflowError
      else if w < 1 \<or> h < 1 then Inl ValueError
      else if alloc w h then Inr \<lparr>width = w, height = h, pixels = resample img w h\<rparr>
      else Inl MemoryError)"

definition pil_crop :: "image \<Rightarrow> int \<Rightarrow> int \<Rightarrow> int \<Rightarrow> int \<Rightarrow> error + image" where
  "pil_crop img left upper right lower =
     (if right < left \<or> lower < upper then Inl ValueError
      else Inr \<lparr>width = right - left, height = lower - upper,
                pixels = (\<lambda>x y.
                  if 0 \<le> x + left \<and> x + left < width img \<and> 0 \<le> y + upper \<and> y + upper < height img
                  then pixels img (x + left) (y + upper) else (0, 0, 0))\<rparr>)"

definition pil_getpixel :: "image \<Rightarrow> int \<Rightarrow> int \<Rightarrow> error + (int \<times> int \<times> int)" where
  "pil_getpixel img x y =
     (let x' = (if x < 0 then width img + x else x);
          y' = (if y < 0 then height img + y else y)
      in if 0 \<le> x' \<and> x' < width img \<and> 0 \<le> y' \<and> y' < height img
         then (case pixels img x' y' of (r, g, b) \<Rightarrow> Inr (uint r, uint g, uint b))
         else Inl IndexError)"

subsection \<open>Render\<close>

text \<open>\<open>((r & 0xF8) << 8) | ((g & 0xFC) << 3) | (b >> 3)\<close>\<close>

definition rgb565 :: "int \<Rightarrow> int \<Rightarrow> int \<Rightarrow> int" where
  "rgb565 r g b = push_bit 8 (r AND 0xF8) OR push_bit 3 (g AND 0xFC) OR drop_bit 3 b"

text \<open>\<open>[(rgb565 >> 8) & 0xFF, rgb565 & 0xFF]\<close>\<close>

definition bytes565 :: "int \<Rightarrow> int list" where
  "bytes565 v = [drop_bit 8 v AND 0xFF, v AND 0xFF]"

text \<open>
  Lines 69 to 93 of \<open>render\<close>, without the calls of Pillow: the size the image is resized
  to and the box that is cropped from the resized image, \<open>(left, upper, right, lower)\<close>.
\<close>

definition scale_box ::
  "int \<Rightarrow> int \<Rightarrow> int \<Rightarrow> int \<Rightarrow> error + ((int \<times> int) \<times> (int \<times> int \<times> int \<times> int))" where
  "scale_box original_width original_height screen_width screen_height =
     (case int_truediv original_width original_height of
        Inl e \<Rightarrow> Inl e
      | Inr aspect_ratio \<Rightarrow>
     (case int_truediv screen_width screen_height of
        Inl e \<Rightarrow> Inl e
      | Inr screen_aspect_ratio \<Rightarrow>
          if screen_aspect_ratio < aspect_ratio then
            (let new_height = screen_height;
                 new_width = int_of_float (float_mul (float_of_int new_height) aspect_ratio);
                 offset_x = (new_width - screen_width) div 2
             in Inr ((new_width, new_height), (offset_x, 0, offset_x + screen_width, screen_height)))
          else
            (let new_width = screen_width
             in case float_truediv (float_of_int new_width) aspect_ratio of
                  Inl e \<Rightarrow> Inl e
                | Inr q \<Rightarrow>
                    (let new_height = int_of_float q;
                         offset_y = (new_height - screen_height) div 2
                     in Inr ((new_width, new_height),
                             (0, offset_y, screen_width, offset_y + screen_height))))))"

text \<open>The inner loop over \<open>x\<close> and the outer loop over \<open>y\<close> that fill \<open>pixel_data\<close>.\<close>

fun row_pixels :: "image \<Rightarrow> int \<Rightarrow> int list \<Rightarrow> error + int list" where
  "row_pixels img y [] = Inr []"
| "row_pixels img y (x # xs) =
     (case pil_getpixel img x y of
        Inl e \<Rightarrow> Inl e
      | Inr (r, g, b) \<Rightarrow>
          (case row_pixels img y xs of
             Inl e \<Rightarrow> Inl e
           | Inr rest \<Rightarrow> Inr (bytes565 (rgb565 r g b) @ rest)))"

fun image_pixels :: "image \<Rightarrow> int list \<Rightarrow> int list \<Rightarrow> error + int list" where
  "image_pixels img [] xs = Inr []"
| "image_pixels img (y # ys) xs =
     (case row_pixels img y xs of
        Inl e \<Rightarrow> Inl e
      | Inr row \<Rightarrow>
          (case image_pixels img ys xs of
             Inl e \<Rightarrow> Inl e
           | Inr rest \<Rightarrow> Inr (row @ rest)))"

text \<open>
  \<open>render\<close>, on an initialised display \<open>d\<close>. The name \<open>Image\<close> is bound nowhere in
  whisplay.py, so the branch for a numpy array raises \<open>NameError\<close>.
\<close>

definition render ::
  "resampler \<Rightarrow> allocator \<Rightarrow> board \<Rightarrow> canvas \<Rightarrow> error option \<times> board" where
  "render resample alloc d canvas =
     (case canvas of
        NdArray \<Rightarrow> (Some NameError, d)
      | PilImage img \<Rightarrow>
     (case scale_box (width img) (height img) LCD_WIDTH LCD_HEIGHT of
        Inl e \<Rightarrow> (Some e, d)
      | Inr ((new_width, new_height), (left, upper, right, lower)) \<Rightarrow>
     (case pil_resize resample alloc img new_width new_height of
        Inl e \<Rightarrow> (Some e, d)
      | Inr resized_img \<Rightarrow>
     (case pil_crop resized_img left upper right lower of
        Inl e \<Rightarrow> (Some e, d)
      | Inr cropped_img \<Rightarrow>
     (case image_pixels cropped_img [0 .. LCD_HEIGHT - 1] [0 .. LCD_WIDTH - 1] of
        Inl e \<Rightarrow> (Some e, d)
      | Inr pixel_data \<Rightarrow> draw_image d 0 0 LCD_WIDTH LCD_HEIGHT pixel_data)))))"

section \<open>Observations\<close>

text \<open>
  The decoding of the spec (8. Testable properties): the top bits of the three fields of a
  565 value, back in the positions they had in the 8 bit channels.
\<close>

definition decode565 :: "int \<Rightarrow> int \<times> int \<times> int" where
  "decode565 v = (drop_bit 8 v AND 0xF8, drop_bit 3 v AND 0xFC, push_bit 3 v AND 0xF8)"

text \<open>
  What the panel receives of a sequence of hardware calls: every byte written to the SPI
  bus, with the level that the data/command line has when it is written (\<open>False\<close>: a
  command byte, \<open>True\<close>: a data byte). \<open>dc\<close> is the level of the line before the calls.
\<close>

fun bus :: "bool \<Rightarrow> event list \<Rightarrow> (bool \<times> int) list" where
  "bus dc [] = []"
| "bus dc (Gpio_output p v # es) = (if p = DC_PIN then bus v es else bus dc es)"
| "bus dc (Spi_xfer2 bs # es) = map (Pair dc) bs @ bus dc es"
| "bus dc (Spi_writebytes2 bs # es) = map (Pair dc) bs @ bus dc es"
| "bus dc (Spi_writebytes bs # es) = map (Pair dc) bs @ bus dc es"
| "bus dc (Pwm_start p v # es) = bus dc es"
| "bus dc (Pwm_ChangeDutyCycle p v # es) = bus dc es"
| "bus dc (Pwm_stop p # es) = bus dc es"
| "bus dc (Sleep t # es) = bus dc es"

text \<open>The hardware calls of \<open>_send_data\<close>, of \<open>_send_command\<close> and of \<open>set_window\<close> in mode 0.\<close>

definition data_events :: "bool \<Rightarrow> int list \<Rightarrow> event list" where
  "data_events w2 data = Gpio_output DC_PIN True #
      (if w2 then [Spi_writebytes2 data] else map Spi_writebytes (chunks 4096 data))"

definition cmd_events :: "bool \<Rightarrow> int \<Rightarrow> int list \<Rightarrow> event list" where
  "cmd_events w2 cmd args =
     Gpio_output DC_PIN False # Spi_xfer2 [cmd] #
       (if args \<noteq> [] then Gpio_output DC_PIN True # data_events w2 args else [])"

definition window_events :: "bool \<Rightarrow> int \<Rightarrow> int \<Rightarrow> int \<Rightarrow> int \<Rightarrow> event list" where
  "window_events w2 x0 y0 x1 y1 =
     cmd_events w2 0x2A [drop_bit 8 x0, x0 AND 0xFF, drop_bit 8 x1, x1 AND 0xFF] @
     cmd_events w2 0x2B [drop_bit 8 (y0 + 20), (y0 + 20) AND 0xFF, drop_bit 8 (y1 + 20), (y1 + 20) AND 0xFF] @
     cmd_events w2 0x2C []"

text \<open>The two bytes that \<open>render\<close> appends for a pixel of the cropped image.\<close>

definition encode_pixel :: "rgb8 \<Rightarrow> int list" where
  "encode_pixel p = (case p of (r, g, b) \<Rightarrow> bytes565 (rgb565 (uint r) (uint g) (uint b)))"

text \<open>
  The size of the resized image as the spec states it (4.3, steps 2 to 4), with \<open>round\<close>
  the rounding to the nearest integer of Python.
\<close>

definition spec_resized :: "int \<Rightarrow> int \<Rightarrow> int \<Rightarrow> int \<Rightarrow> int \<times> int" where
  "spec_resized srcW srcH panelW panelH =
     (let aspect = fl (of_int srcW / of_int srcH);
          screenAspect = fl (of_int panelW / of_int panelH)
      in if screenAspect < aspect
         then (round_half_even (fl (of_int panelH * aspect)), panelH)
         else (panelW, round_half_even (fl (of_int panelW / aspect))))"

text \<open>Whether \<open>set_rgb\<close> returns at its first test: one of the three LED channels is missing.\<close>

definition leds_absent :: "board \<Rightarrow> bool" where
  "leds_absent s = (red_pwm s = None \<or> green_pwm s = None \<or> blue_pwm s = None)"

text \<open>
  The values of one channel over the passes of the fade loop on the indices \<open>ns\<close>, when
  every pass stores the value it has sent: each pass starts from the value of the pass
  before it.
\<close>

fun accum1 :: "int \<Rightarrow> rat \<Rightarrow> int list \<Rightarrow> int list" where
  "accum1 c step [] = []"
| "accum1 c step (i # is) =
     clamp255 (interim c i step) # accum1 (clamp255 (interim c i step)) step is"

section \<open>Sample inputs\<close>

definition board0 :: board where
  "board0 = \<lparr>gpio_initialized = True, backlight_mode = True, backlight_pwm = None,
     red_pwm = Some (PWM 22 100), green_pwm = Some (PWM 18 100), blue_pwm = Some (PWM 16 100),
     current_r = Some 0, current_g = Some 0, current_b = Some 0,
     has_writebytes2 = True, trace = []\<rparr>"



text \<open>A resampling filter, a machine with room for every image, and images for the examples.\<close>

definition roomy :: allocator where
  "roomy w h = True"

definition image_9000000_1 :: image where
  "image_9000000_1 = \<lparr>width = 9000000, height = 1, pixels = (\<lambda>x y. (of_int x, of_int y, 0))\<rparr>"

definition black :: resampler where
  "black img w h x y = (0, 0, 0)"

definition image_500_300 :: image where
  "image_500_300 = \<lparr>width = 500, height = 300, pixels = (\<lambda>x y. (of_int x, of_int y, 0))\<rparr>"

definition image_240_280 :: image where
  "image_240_280 = \<lparr>width = 240, height = 280, pixels = (\<lambda>x y. (of_int x, of_int y, 0))\<rparr>"

section \<open>Transport and window addressing\<close>

lemma emit_emit: "emit (emit s xs) ys = emit s (xs @ ys)"
  by (simp add: emit_def)

lemma concat_chunks_take:
  "concat (map (\<lambda>k. take c (drop (k * c) xs)) [0 ..< n]) = take (n * c) xs"
proof (induction n)
  case 0
  then show ?case by simp
next
  case (Suc n)
  have "take (n * c) xs @ take c (drop (n * c) xs) = take (n * c + c) xs"
    by (simp add: take_add)
  with Suc show ?case by (simp add: add.commute)
qed

lemma concat_chunks: "0 < c \<Longrightarrow> concat (chunks c xs) = xs"
proof -
  assume c: "0 < c"
  have "length xs \<le> ((length xs + c - 1) div c) * c"
  proof -
    have "length xs + c - 1 < ((length xs + c - 1) div c) * c + c"
      using c by (metis add.commute div_mult_mod_eq mod_less_divisor add_less_cancel_left mult.commute)
    then show ?thesis using c by linarith
  qed
  then show ?thesis by (simp add: chunks_def concat_chunks_take)
qed

lemma bus_writebytes_append:
  "bus dc (map Spi_writebytes cs @ es) = map (Pair dc) (concat cs) @ bus dc es"
  by (induction cs) simp_all

lemma bus_writebytes: "bus dc (map Spi_writebytes cs) = map (Pair dc) (concat cs)"
  using bus_writebytes_append [of dc cs "[]"] by simp

lemma bus_data_events:
  "bus dc (Gpio_output DC_PIN True #
      (if w2 then [Spi_writebytes2 data] else map Spi_writebytes (chunks 4096 data)))
   = map (Pair True) data"
  by (simp add: bus_writebytes concat_chunks)

lemma send_data_emit: "send_data s data = emit s (data_events (has_writebytes2 s) data)"
  by (simp add: send_data_def emit_def data_events_def)

lemma has_writebytes2_emit [simp]: "has_writebytes2 (emit s es) = has_writebytes2 s"
  by (simp add: emit_def)

lemma bus_append_data:
  "bus dc (es @ data_events w2 data) = bus dc es @ map (Pair True) data"
  by (induction dc es rule: bus.induct) (simp_all add: data_events_def bus_writebytes concat_chunks)

lemma bus_append_cmd:
  "bus dc (es @ Gpio_output DC_PIN False # Spi_xfer2 [c] # es') = bus dc es @ (False, c) # bus False es'"
  by (induction dc es rule: bus.induct) simp_all

lemma send_command_emit:
  "send_command s cmd args = emit s (cmd_events (has_writebytes2 s) cmd args)"
  by (simp add: send_command_def send_data_emit emit_emit cmd_events_def)

lemma bus_data_events': "bus dc (data_events w2 data) = map (Pair True) data"
  using bus_append_data [of dc "[]" w2 data] by simp

lemma bus_cmd_events: "bus dc (cmd_events w2 cmd args) = (False, cmd) # map (Pair True) args"
  by (simp add: cmd_events_def bus_data_events')

lemma bus_append_cmd_events:
  "bus dc (es @ cmd_events w2 cmd args @ es') =
     bus dc es @ (False, cmd) # map (Pair True) args @ bus (args \<noteq> []) es'"
proof (induction dc es rule: bus.induct)
  case (1 dc)
  show ?case
  proof (cases "args = []")
    case True
    then show ?thesis by (simp add: cmd_events_def)
  next
    case False
    have "bus True (data_events w2 args @ es') = map (Pair True) args @ bus True es'"
      by (simp add: data_events_def bus_writebytes_append concat_chunks)
    with False show ?thesis by (simp add: cmd_events_def)
  qed
qed simp_all

lemma set_window_emit:
  "set_window s x0 y0 x1 y1 0 = emit s (window_events (has_writebytes2 s) x0 y0 x1 y1)"
  by (simp add: set_window_def send_command_emit emit_emit window_events_def)

lemma bus_window_data:
  "bus dc (window_events w2 x0 y0 x1 y1 @ data_events w2' data) =
     [(False, 0x2A), (True, drop_bit 8 x0), (True, x0 AND 0xFF), (True, drop_bit 8 x1), (True, x1 AND 0xFF),
      (False, 0x2B), (True, drop_bit 8 (y0 + 20)), (True, (y0 + 20) AND 0xFF),
      (True, drop_bit 8 (y1 + 20)), (True, (y1 + 20) AND 0xFF),
      (False, 0x2C)] @ map (Pair True) data"
proof -
  have "bus dc (window_events w2 x0 y0 x1 y1 @ data_events w2' data) =
        bus dc ([] @ cmd_events w2 0x2A [drop_bit 8 x0, x0 AND 0xFF, drop_bit 8 x1, x1 AND 0xFF] @
          ([] @ cmd_events w2 0x2B [drop_bit 8 (y0 + 20), (y0 + 20) AND 0xFF, drop_bit 8 (y1 + 20), (y1 + 20) AND 0xFF] @
          ([] @ cmd_events w2 0x2C [] @ data_events w2' data)))"
    by (simp add: window_events_def)
  also have "\<dots> = [(False, 0x2A), (True, drop_bit 8 x0), (True, x0 AND 0xFF), (True, drop_bit 8 x1), (True, x1 AND 0xFF),
      (False, 0x2B), (True, drop_bit 8 (y0 + 20)), (True, (y0 + 20) AND 0xFF),
      (True, drop_bit 8 (y1 + 20)), (True, (y1 + 20) AND 0xFF),
      (False, 0x2C)] @ map (Pair True) data"
    unfolding bus_append_cmd_events by (simp add: bus_data_events')
  finally show ?thesis .
qed

text \<open>
  C10. For an orientation mode other than 0, 1, 2 and 3, \<open>set_window\<close> sends neither the
  column address command (0x2A) nor the row address command (0x2B): all it adds to the
  trace is the memory write command 0x2C, sent as a command byte with no argument, and
  nothing else of the state changes.
\<close>

theorem set_window_other_mode:
  "use_horizontal \<notin> {0, 1, 2, 3} \<Longrightarrow>
   set_window s x0 y0 x1 y1 use_horizontal =
     s\<lparr>trace := trace s @ [Gpio_output DC_PIN False, Spi_xfer2 [0x2C]]\<rparr>"
  by (simp add: set_window_def send_command_def emit_def)

theorem set_window_other_mode_witness:
  "(4::int) \<notin> {0, 1, 2, 3} \<and>
   set_window board0 0 0 239 279 4 =
     board0\<lparr>trace := trace board0 @ [Gpio_output DC_PIN False, Spi_xfer2 [0x2C]]\<rparr>"
  using set_window_other_mode [of 4 board0 0 0 239 279] by simp

section \<open>Image blit and single pixels\<close>

text \<open>
  C4. \<open>draw_image\<close> raises its error exactly when \<open>x + width\<close> exceeds the panel width
  or \<open>y + height\<close> the panel height, and then leaves the state as it was: no window, no
  byte on the bus. Otherwise it only adds hardware calls, and what the panel receives of
  them is the window \<open>(x, y, x + width - 1, y + height - 1)\<close> (column command 0x2A, row
  command 0x2B with the offset 20, memory write 0x2C) followed by the buffer of the
  caller, byte for byte, as data.
\<close>

theorem draw_image_bounds:
  "if LCD_WIDTH < x + w \<or> LCD_HEIGHT < y + h
   then draw_image s x y w h pixel_data = (Some ValueError, s)
   else \<exists>es. draw_image s x y w h pixel_data = (None, emit s es) \<and>
          bus dc es =
            [(False, 0x2A), (True, drop_bit 8 x), (True, x AND 0xFF),
             (True, drop_bit 8 (x + w - 1)), (True, (x + w - 1) AND 0xFF),
             (False, 0x2B), (True, drop_bit 8 (y + 20)), (True, (y + 20) AND 0xFF),
             (True, drop_bit 8 (y + h - 1 + 20)), (True, (y + h - 1 + 20) AND 0xFF),
             (False, 0x2C)] @ map (Pair True) pixel_data"
proof (cases "LCD_WIDTH < x + w \<or> LCD_HEIGHT < y + h")
  case True
  then show ?thesis by (simp add: draw_image_def)
next
  case False
  let ?es = "window_events (has_writebytes2 s) x y (x + w - 1) (y + h - 1) @
             data_events (has_writebytes2 s) pixel_data"
  have "draw_image s x y w h pixel_data = (None, emit s ?es)"
    using False by (simp add: draw_image_def set_window_emit send_data_emit emit_emit)
  moreover have "bus dc ?es = [(False, 0x2A), (True, drop_bit 8 x), (True, x AND 0xFF),
             (True, drop_bit 8 (x + w - 1)), (True, (x + w - 1) AND 0xFF),
             (False, 0x2B), (True, drop_bit 8 (y + 20)), (True, (y + 20) AND 0xFF),
             (True, drop_bit 8 (y + h - 1 + 20)), (True, (y + h - 1 + 20) AND 0xFF),
             (False, 0x2C)] @ map (Pair True) pixel_data"
    by (rule bus_window_data)
  ultimately show ?thesis using False by (simp del: bus.simps) blast
qed

text \<open>
  A pixel at or beyond the right or the lower edge is dropped, and one with both
  coordinates below the panel size gets its 1 by 1 window and its two bytes.
\<close>

lemma draw_pixel_outside:
  "LCD_WIDTH \<le> x \<or> LCD_HEIGHT \<le> y \<Longrightarrow> draw_pixel s x y color = s"
  by (simp add: draw_pixel_def)

lemma draw_pixel_inside:
  "x < LCD_WIDTH \<Longrightarrow> y < LCD_HEIGHT \<Longrightarrow>
   \<exists>es. draw_pixel s x y color = emit s es \<and>
     bus dc es =
       [(False, 0x2A), (True, drop_bit 8 x), (True, x AND 0xFF), (True, drop_bit 8 x), (True, x AND 0xFF),
        (False, 0x2B), (True, drop_bit 8 (y + 20)), (True, (y + 20) AND 0xFF),
        (True, drop_bit 8 (y + 20)), (True, (y + 20) AND 0xFF),
        (False, 0x2C), (True, drop_bit 8 color AND 0xFF), (True, color AND 0xFF)]"
proof -
  assume a: "x < LCD_WIDTH" "y < LCD_HEIGHT"
  let ?es = "window_events (has_writebytes2 s) x y x y @
             data_events (has_writebytes2 s) [drop_bit 8 color AND 0xFF, color AND 0xFF]"
  have "draw_pixel s x y color = emit s ?es"
    using a by (simp add: draw_pixel_def set_window_emit send_data_emit emit_emit)
  moreover have "bus dc ?es = [(False, 0x2A), (True, drop_bit 8 x), (True, x AND 0xFF), (True, drop_bit 8 x), (True, x AND 0xFF),
        (False, 0x2B), (True, drop_bit 8 (y + 20)), (True, (y + 20) AND 0xFF),
        (True, drop_bit 8 (y + 20)), (True, (y + 20) AND 0xFF),
        (False, 0x2C), (True, drop_bit 8 color AND 0xFF), (True, color AND 0xFF)]"
    unfolding bus_window_data by simp
  ultimately show ?thesis by blast
qed

text \<open>
  C5. \<open>draw_pixel\<close> compares the coordinates with the panel size only, so a negative
  coordinate is not dropped: for the pixel at \<open>(-1, 0)\<close> the panel receives a column
  command with the bytes of \<open>-1\<close>, the row command, the memory write and the colour.
\<close>

theorem draw_pixel_negative:
  "bus False (trace (draw_pixel board0 (- 1) 0 0xF800)) =
     [(False, 0x2A), (True, - 1), (True, 0xFF), (True, - 1), (True, 0xFF),
      (False, 0x2B), (True, 0), (True, 20), (True, 0), (True, 20),
      (False, 0x2C), (True, 0xF8), (True, 0)]"
  by (simp add: draw_pixel_def set_window_def send_command_def send_data_def emit_def board0_def
      LCD_WIDTH_def LCD_HEIGHT_def)

section \<open>Backlight\<close>




section \<open>Colour conversion\<close>

lemma m248: "(248::int) = push_bit 3 (mask 5)"
  by (simp add: mask_eq_exp_minus_1)

lemma m252: "(252::int) = push_bit 2 (mask 6)"
  by (simp add: mask_eq_exp_minus_1)

lemma byte_bit: "0 \<le> b \<Longrightarrow> b \<le> 255 \<Longrightarrow> bit (b::int) n \<Longrightarrow> n < 8"
proof -
  assume a: "0 \<le> b" "b \<le> 255" "bit b n"
  then have "take_bit 8 b = b" by (simp add: take_bit_int_eq_self)
  then have "bit (take_bit 8 b) n" using a by simp
  then show ?thesis by (simp add: bit_take_bit_iff)
qed

lemma decode_red:
  "0 \<le> g \<Longrightarrow> g \<le> 255 \<Longrightarrow> 0 \<le> b \<Longrightarrow> b \<le> 255 \<Longrightarrow>
   drop_bit 8 (rgb565 r g b) AND 0xF8 = r AND 0xF8"
  unfolding rgb565_def m248 m252
  by (rule bit_eqI) (auto simp add: bit_simps dest: byte_bit)

lemma decode_green:
  "0 \<le> g \<Longrightarrow> g \<le> 255 \<Longrightarrow> 0 \<le> b \<Longrightarrow> b \<le> 255 \<Longrightarrow>
   drop_bit 3 (rgb565 r g b) AND 0xFC = g AND 0xFC"
  unfolding rgb565_def m248 m252
  by (rule bit_eqI) (auto simp add: bit_simps dest: byte_bit)

lemma decode_blue:
  "0 \<le> g \<Longrightarrow> g \<le> 255 \<Longrightarrow> 0 \<le> b \<Longrightarrow> b \<le> 255 \<Longrightarrow>
   push_bit 3 (rgb565 r g b) AND 0xF8 = b AND 0xF8"
  unfolding rgb565_def m248 m252
  by (rule bit_eqI) (auto simp add: bit_simps dest: byte_bit)

lemma encode_masked:
  "0 \<le> b \<Longrightarrow> b \<le> 255 \<Longrightarrow> rgb565 (r AND 0xF8) (g AND 0xFC) (b AND 0xF8) = rgb565 r g b"
  unfolding rgb565_def m248 m252
  by (rule bit_eqI) (auto simp add: bit_simps dest: byte_bit)

text \<open>
  C3. For channels from 0 to 255, decoding the top bits of the 565 value gives
  \<open>r & 0xF8\<close>, \<open>g & 0xFC\<close> and \<open>b & 0xF8\<close>, and encoding the decoded channels again gives
  the same 565 value.
\<close>

theorem rgb565_round_trip:
  "0 \<le> r \<Longrightarrow> r \<le> 255 \<Longrightarrow> 0 \<le> g \<Longrightarrow> g \<le> 255 \<Longrightarrow> 0 \<le> b \<Longrightarrow> b \<le> 255 \<Longrightarrow>
   decode565 (rgb565 r g b) = (r AND 0xF8, g AND 0xFC, b AND 0xF8) \<and>
   (case decode565 (rgb565 r g b) of (r', g', b') \<Rightarrow> rgb565 r' g' b' = rgb565 r g b)"
  by (simp add: decode565_def decode_red decode_green decode_blue encode_masked)

theorem rgb565_round_trip_witness:
  "(0::int) \<le> 200 \<and> (200::int) \<le> 255 \<and> (0::int) \<le> 100 \<and> (100::int) \<le> 255 \<and>
   (0::int) \<le> 77 \<and> (77::int) \<le> 255 \<and>
   decode565 (rgb565 200 100 77) = (200, 100, 72) \<and>
   rgb565 200 100 77 = 52009 \<and> rgb565 200 100 72 = 52009"
  using rgb565_round_trip [of 200 100 77] by (simp add: rgb565_def)

section \<open>Rounding to the nearest float\<close>

lemma pow2_power_int: "pow2 e = power_int 2 e"
  by (simp add: pow2_def power_int_def field_simps)

lemma pow2_pos [simp]: "0 < pow2 e"
  by (simp add: pow2_power_int)

lemma pow2_nonneg [simp]: "0 \<le> pow2 e"
  using pow2_pos [of e] by linarith

lemma pow2_neq_0 [simp]: "pow2 e \<noteq> 0"
  using pow2_pos [of e] by linarith

lemma pow2_not_neg [simp]: "\<not> pow2 e < 0"
  using pow2_pos [of e] by linarith

lemma pow2_add: "pow2 (a + b) = pow2 a * pow2 b"
  by (simp add: pow2_power_int power_int_add)

lemma pow2_nat: "0 \<le> e \<Longrightarrow> pow2 e = 2 ^ nat e"
  by (simp add: pow2_def)

lemma pow2_mono: "a \<le> b \<Longrightarrow> pow2 a \<le> pow2 b"
  by (simp add: pow2_power_int power_int_increasing)

lemma pow2_less_imp: "pow2 a < pow2 b \<Longrightarrow> a < b"
  using pow2_mono [of b a] by (cases "a < b") auto

lemma binade_bounds:
  assumes "0 < q"
  shows "pow2 (binade q) \<le> q" and "q < pow2 (binade q + 1)"
proof -
  have "pow2 (binade q) \<le> q \<and> q < pow2 (binade q + 1)"
  proof (cases "1 \<le> q")
    case True
    define n where "n = \<lfloor>q\<rfloor>"
    have n: "1 \<le> n" using True by (simp add: n_def le_floor_iff)
    then have b: "2 ^ nat (bitlen n - 1) \<le> n" "n < 2 ^ nat (bitlen n)"
      using bitlen_bounds [of n] by auto
    have k: "1 \<le> bitlen n" using n by (auto simp: bitlen_alt_def)
    have "(2::rat) ^ nat (bitlen n - 1) \<le> of_int n"
      using b(1) by (metis of_int_le_iff of_int_numeral of_int_power)
    also have "\<dots> \<le> q" by (simp add: n_def)
    finally have lo: "pow2 (bitlen n - 1) \<le> q" using k by (simp add: pow2_nat)
    have "n + 1 \<le> 2 ^ nat (bitlen n)" using b(2) by simp
    then have "(of_int (n + 1) :: rat) \<le> 2 ^ nat (bitlen n)"
      by (metis of_int_le_iff of_int_numeral of_int_power)
    moreover have "q < of_int (n + 1)" unfolding n_def by linarith
    ultimately have hi: "q < pow2 (bitlen n)" using k by (simp add: pow2_nat)
    show ?thesis using True lo hi by (simp add: binade_def n_def)
  next
    case False
    define m where "m = \<lceil>1 / q\<rceil>"
    have q1: "1 < 1 / q" using False assms by simp
    have m: "2 \<le> m" unfolding m_def using q1 by (simp add: le_ceiling_iff) 
    define j where "j = bitlen (m - 1)"
    have b: "2 ^ nat (j - 1) \<le> m - 1" "m - 1 < 2 ^ nat j"
      using bitlen_bounds [of "m - 1"] m by (auto simp: j_def)
    have j: "1 \<le> j" using m by (auto simp: j_def bitlen_alt_def)
    have "1 / q \<le> of_int m" by (simp add: m_def)
    also have "(of_int m :: rat) \<le> 2 ^ nat j"
    proof -
      have "m \<le> 2 ^ nat j" using b(2) by simp
      then show ?thesis by (metis of_int_le_iff of_int_numeral of_int_power)
    qed
    finally have "1 / q \<le> 2 ^ nat j" .
    then have "1 \<le> 2 ^ nat j * q" using assms by (simp add: field_simps)
    then have lo: "pow2 (- j) \<le> q" using j by (simp add: pow2_def field_simps)
    have "(2::rat) ^ nat (j - 1) \<le> of_int (m - 1)"
      using b(1) by (metis of_int_le_iff of_int_numeral of_int_power)
    also have "of_int (m - 1) < 1 / q" unfolding m_def by linarith
    finally have "2 ^ nat (j - 1) * q < 1" using assms by (simp add: field_simps)
    then have hi: "q < pow2 (- j + 1)"
    proof (cases "j = 1")
      case True
      then show ?thesis using False by (simp add: pow2_def)
    next
      case F: False
      then have "nat (- (- j + 1)) = nat (j - 1)" "\<not> 0 \<le> - j + 1" using j by auto
      then show ?thesis using \<open>2 ^ nat (j - 1) * q < 1\<close> by (simp add: pow2_def field_simps)
    qed
    show ?thesis using False lo hi by (simp add: binade_def m_def j_def)
  qed
  then show "pow2 (binade q) \<le> q" and "q < pow2 (binade q + 1)" by auto
qed

lemma binade_unique:
  assumes "pow2 e \<le> q" "q < pow2 (e + 1)"
  shows "binade q = e"
proof -
  have q: "0 < q" using assms(1) pow2_pos [of e] by linarith
  have "pow2 (binade q) < pow2 (e + 1)" using binade_bounds(1) [OF q] assms(2) by linarith
  then have a: "binade q < e + 1" by (rule pow2_less_imp)
  have "pow2 e < pow2 (binade q + 1)" using binade_bounds(2) [OF q] assms(1) by linarith
  then have "e < binade q + 1" by (rule pow2_less_imp)
  with a show ?thesis by simp
qed

lemma binade_mono: "0 < x \<Longrightarrow> x \<le> y \<Longrightarrow> binade x \<le> binade y"
proof -
  assume a: "0 < x" "x \<le> y"
  then have "pow2 (binade x) < pow2 (binade y + 1)"
    using binade_bounds(1) [of x] binade_bounds(2) [of y] by linarith
  then have "binade x < binade y + 1" by (rule pow2_less_imp)
  then show ?thesis by simp
qed

lemma round_half_even_bounds:
  "x - 1 / 2 \<le> of_int (round_half_even x)" "of_int (round_half_even x) \<le> x + 1 / 2"
  unfolding round_half_even_def Let_def by (auto; linarith)+

lemma round_half_even_mono: "x \<le> y \<Longrightarrow> round_half_even x \<le> round_half_even y"
proof (rule ccontr)
  assume xy: "x \<le> y" and "\<not> round_half_even x \<le> round_half_even y"
  then have "round_half_even y + 1 \<le> round_half_even x" by simp
  then have *: "(of_int (round_half_even y) :: rat) + 1 \<le> of_int (round_half_even x)"
    by (metis of_int_1 of_int_add of_int_le_iff)
  have "x + 1 / 2 \<le> of_int (round_half_even y) + 1"
    using round_half_even_bounds(1) [of y] xy by linarith
  with * round_half_even_bounds(2) [of x]
  have e1: "of_int (round_half_even x) = x + 1 / 2" and e2: "of_int (round_half_even y) = y - 1 / 2" and "x = y"
    using round_half_even_bounds(1) [of y] xy by linarith+
  with \<open>\<not> round_half_even x \<le> round_half_even y\<close> show False by simp
qed

lemma round_half_even_of_int [simp]: "round_half_even (of_int n) = n"
  by (simp add: round_half_even_def)

lemma round_half_even_uminus: "round_half_even (- x) = - round_half_even x"
proof (cases "x = of_int \<lfloor>x\<rfloor>")
  case True
  then obtain n where "x = of_int n" ..
  then have "- x = of_int (- n)" by simp
  then show ?thesis using \<open>x = of_int n\<close> by (metis round_half_even_of_int)
next
  case False
  define f where "f = \<lfloor>x\<rfloor>"
  define d where "d = x - of_int f"
  have d: "0 < d" "d < 1"
    using False unfolding d_def f_def by linarith+
  have x: "x = of_int f + d" by (simp add: d_def)
  have "of_int (- f - 1) \<le> - x" "- x < of_int (- f - 1) + 1"
    using d by (simp_all add: x)
  then have fl: "\<lfloor>- x\<rfloor> = - f - 1" by (rule floor_unique)
  have d': "- x - of_int (- f - 1) = 1 - d" by (simp add: x)
  have l: "round_half_even x = (if d < 1 / 2 then f else if 1 / 2 < d then f + 1 else if even f then f else f + 1)"
    unfolding round_half_even_def Let_def f_def [symmetric] d_def [symmetric] ..
  have r: "round_half_even (- x) = (if 1 - d < 1 / 2 then - f - 1 else if 1 / 2 < 1 - d then - f
        else if even (- f - 1) then - f - 1 else - f)"
    unfolding round_half_even_def Let_def fl d' by simp
  consider "d < 1 / 2" | "1 / 2 < d" | "d = 1 / 2" by linarith
  then show ?thesis
  proof cases
    case 1
    then have "\<not> 1 - d < 1 / 2" "1 / 2 < 1 - d" by linarith+
    with 1 show ?thesis unfolding l r by simp
  next
    case 2
    then have "1 - d < 1 / 2" "\<not> d < 1 / 2" by linarith+
    with 2 show ?thesis unfolding l r by simp
  next
    case 3
    then show ?thesis unfolding l r by simp
  qed
qed

lemma fl_pos_eq: "0 < q \<Longrightarrow> fl q = of_int (round_half_even (q / pow2 (binade q - 52))) * pow2 (binade q - 52)"
  by (simp add: fl_def Let_def)

lemma pow2_52: "pow2 52 = of_int (2 ^ 52)" "pow2 53 = of_int (2 ^ 53)"
  by (simp_all add: pow2_def)

lemma fl_pos_bounds:
  assumes "0 < q"
  shows "pow2 (binade q) \<le> fl q" and "fl q \<le> pow2 (binade q + 1)"
proof -
  let ?e = "binade q - 52"
  have s1: "pow2 (binade q) = pow2 52 * pow2 ?e" by (simp flip: pow2_add)
  have s2: "pow2 (binade q + 1) = pow2 53 * pow2 ?e"
    using pow2_add [of 53 ?e] by (simp add: algebra_simps)
  have "pow2 52 \<le> q / pow2 ?e"
    using binade_bounds(1) [OF assms] s1 by (simp add: pos_le_divide_eq)
  then have "round_half_even (pow2 52) \<le> round_half_even (q / pow2 ?e)"
    by (rule round_half_even_mono)
  then have "(2::int) ^ 52 \<le> round_half_even (q / pow2 ?e)"
    unfolding pow2_52 round_half_even_of_int .
  then have "(of_int (2 ^ 52) :: rat) \<le> of_int (round_half_even (q / pow2 ?e))"
    by (simp only: of_int_le_iff)
  then have "pow2 52 * pow2 ?e \<le> of_int (round_half_even (q / pow2 ?e)) * pow2 ?e"
    unfolding pow2_52 by (rule mult_right_mono) simp
  then show "pow2 (binade q) \<le> fl q" using assms s1 by (simp add: fl_pos_eq)
  have "q / pow2 ?e \<le> pow2 53"
    using binade_bounds(2) [OF assms] s2 by (simp add: pos_divide_le_eq)
  then have "round_half_even (q / pow2 ?e) \<le> round_half_even (pow2 53)"
    by (rule round_half_even_mono)
  then have "round_half_even (q / pow2 ?e) \<le> (2::int) ^ 53"
    unfolding pow2_52 round_half_even_of_int .
  then have "(of_int (round_half_even (q / pow2 ?e)) :: rat) \<le> of_int (2 ^ 53)"
    by (simp only: of_int_le_iff)
  then have "of_int (round_half_even (q / pow2 ?e)) * pow2 ?e \<le> pow2 53 * pow2 ?e"
    unfolding pow2_52 by (rule mult_right_mono) simp
  then show "fl q \<le> pow2 (binade q + 1)" using assms s2 by (simp add: fl_pos_eq)
qed

lemma fl_pos: "0 < q \<Longrightarrow> 0 < fl q"
  using fl_pos_bounds(1) [of q] pow2_pos [of "binade q"] by linarith

lemma fl_mono_pos:
  assumes "0 < x" "x \<le> y"
  shows "fl x \<le> fl y"
proof -
  have y: "0 < y" using assms by linarith
  have "binade x \<le> binade y" using assms by (rule binade_mono)
  then consider "binade x = binade y" | "binade x + 1 \<le> binade y" by linarith
  then show ?thesis
  proof cases
    case 1
    let ?e = "binade y - 52"
    have "x / pow2 ?e \<le> y / pow2 ?e"
      using assms(2) pow2_pos [of ?e] by (simp add: divide_le_cancel)
    then have "round_half_even (x / pow2 ?e) \<le> round_half_even (y / pow2 ?e)"
      by (rule round_half_even_mono)
    then have "(of_int (round_half_even (x / pow2 ?e)) :: rat) \<le> of_int (round_half_even (y / pow2 ?e))"
      by (simp only: of_int_le_iff)
    then have "of_int (round_half_even (x / pow2 ?e)) * pow2 ?e \<le> of_int (round_half_even (y / pow2 ?e)) * pow2 ?e"
      by (rule mult_right_mono) simp
    then show ?thesis using assms y 1 by (simp add: fl_pos_eq)
  next
    case 2
    have "fl x \<le> pow2 (binade x + 1)" using assms(1) by (rule fl_pos_bounds)
    also have "\<dots> \<le> pow2 (binade y)" using 2 by (rule pow2_mono)
    also have "\<dots> \<le> fl y" using y by (rule fl_pos_bounds)
    finally show ?thesis .
  qed
qed

lemma fl_uminus: "fl (- q) = - fl q"
  by (simp add: fl_def Let_def round_half_even_uminus)

lemma fl_zero [simp]: "fl 0 = 0"
  by (simp add: fl_def)

lemma fl_neg: "q < 0 \<Longrightarrow> fl q < 0"
  using fl_pos [of "- q"] by (simp add: fl_uminus)

lemma fl_mono: "x \<le> y \<Longrightarrow> fl x \<le> fl y"
proof -
  assume xy: "x \<le> y"
  consider "0 < x" | "x = 0" | "x < 0" "y < 0" | "x < 0" "0 \<le> y" by linarith
  then show ?thesis
  proof cases
    case 1
    then show ?thesis using xy by (rule fl_mono_pos)
  next
    case 2
    then show ?thesis using xy fl_pos [of y] by (cases "y = 0") auto
  next
    case 3
    then have "fl (- y) \<le> fl (- x)" using xy by (intro fl_mono_pos) auto
    then show ?thesis by (simp add: fl_uminus)
  next
    case 4
    then have "fl x < 0" by (intro fl_neg)
    moreover have "0 \<le> fl y" using 4 fl_pos [of y] by (cases "y = 0") auto
    ultimately show ?thesis by linarith
  qed
qed

lemma pow2_neg_of_int: "e \<le> 0 \<Longrightarrow> 1 / pow2 e = of_int (2 ^ nat (- e))"
  by (cases "e = 0") (simp_all add: pow2_def)

lemma fl_of_int_pos:
  assumes "0 < n" "n < 2 ^ 53"
  shows "fl (of_int n) = of_int n"
proof -
  let ?q = "of_int n :: rat"
  let ?e = "binade ?q - 52"
  have q: "0 < ?q" using assms by simp
  have "pow2 (binade ?q) \<le> ?q" using q by (rule binade_bounds)
  also have "?q < pow2 53" using assms(2) unfolding pow2_52 by (simp only: of_int_less_iff)
  finally have "binade ?q < 53" by (rule pow2_less_imp)
  then have e: "?e \<le> 0" by simp
  have "?q / pow2 ?e = ?q * (1 / pow2 ?e)" by simp
  also have "\<dots> = of_int (n * 2 ^ nat (- ?e))"
    unfolding pow2_neg_of_int [OF e] by simp
  finally have "round_half_even (?q / pow2 ?e) = n * 2 ^ nat (- ?e)"
    by (simp only: round_half_even_of_int)
  then have "fl ?q = of_int (n * 2 ^ nat (- ?e)) * pow2 ?e"
    using q by (simp only: fl_pos_eq)
  also have "\<dots> = ?q * (of_int (2 ^ nat (- ?e)) * pow2 ?e)" by simp
  also have "of_int (2 ^ nat (- ?e)) * pow2 ?e = (1::rat)"
    unfolding pow2_neg_of_int [OF e, symmetric] using pow2_pos [of ?e] by simp
  finally show ?thesis by simp
qed

lemma fl_of_int: "\<bar>n\<bar> < 2 ^ 53 \<Longrightarrow> fl (of_int n) = of_int n"
proof -
  assume a: "\<bar>n\<bar> < 2 ^ 53"
  consider "0 < n" | "n = 0" | "n < 0" by linarith
  then show ?thesis
  proof cases
    case 1
    then show ?thesis using a by (intro fl_of_int_pos) auto
  next
    case 2
    then show ?thesis by simp
  next
    case 3
    then have "fl (of_int (- n)) = of_int (- n)" using a by (intro fl_of_int_pos) auto
    then show ?thesis by (simp add: fl_uminus)
  qed
qed

lemma fl_scaled_pos:
  assumes "0 < n" "n < 2 ^ 53"
  shows "fl (of_int n * pow2 e) = of_int n * pow2 e"
proof -
  let ?q = "of_int n :: rat"
  let ?b = "binade ?q"
  have q: "0 < ?q" using assms by simp
  have qe: "0 < ?q * pow2 e" using q by simp
  have "pow2 (?b + e) \<le> ?q * pow2 e"
    using binade_bounds(1) [OF q] by (simp add: pow2_add)
  moreover have "?q * pow2 e < pow2 (?b + e + 1)"
    using binade_bounds(2) [OF q] pow2_add [of "?b + 1" e] by (simp add: algebra_simps)
  ultimately have b: "binade (?q * pow2 e) = ?b + e" by (rule binade_unique)
  have "pow2 ?b \<le> ?q" using q by (rule binade_bounds)
  also have "?q < pow2 53" using assms(2) unfolding pow2_52 by (simp only: of_int_less_iff)
  finally have "?b < 53" by (rule pow2_less_imp)
  then have e: "?b - 52 \<le> 0" by simp
  have "pow2 e = pow2 (?b + e - 52) * pow2 (52 - ?b)"
    by (simp flip: pow2_add)
  then have "?q * pow2 e / pow2 (?b + e - 52) = ?q * pow2 (52 - ?b)" by simp
  also have "pow2 (52 - ?b) = of_int (2 ^ nat (52 - ?b))"
    using e by (simp add: pow2_def)
  finally have "?q * pow2 e / pow2 (?b + e - 52) = of_int (n * 2 ^ nat (52 - ?b))" by simp
  then have "round_half_even (?q * pow2 e / pow2 (?b + e - 52)) = n * 2 ^ nat (52 - ?b)"
    by (simp only: round_half_even_of_int)
  then have "fl (?q * pow2 e) = of_int (n * 2 ^ nat (52 - ?b)) * pow2 (?b + e - 52)"
    using fl_pos_eq [OF qe] unfolding b by simp
  also have "\<dots> = ?q * (of_int (2 ^ nat (52 - ?b)) * pow2 (?b + e - 52))" by simp
  also have "of_int (2 ^ nat (52 - ?b)) * pow2 (?b + e - 52) = pow2 (52 - ?b) * pow2 (?b + e - 52)"
    using e by (simp add: pow2_def)
  also have "\<dots> = pow2 e" by (simp flip: pow2_add)
  finally show ?thesis .
qed

lemma fl_scaled: "\<bar>n\<bar> < 2 ^ 53 \<Longrightarrow> fl (of_int n * pow2 e) = of_int n * pow2 e"
proof -
  assume a: "\<bar>n\<bar> < 2 ^ 53"
  consider "0 < n" | "n = 0" | "n < 0" by linarith
  then show ?thesis
  proof cases
    case 1
    then show ?thesis using a by (intro fl_scaled_pos) auto
  next
    case 2
    then show ?thesis by simp
  next
    case 3
    then have "fl (of_int (- n) * pow2 e) = of_int (- n) * pow2 e"
      using a by (intro fl_scaled_pos) auto
    then show ?thesis using fl_uminus [of "of_int n * pow2 e"] by simp
  qed
qed

lemma fl_quarters: "\<bar>n\<bar> < 2 ^ 53 \<Longrightarrow> fl (of_int n / 4) = of_int n / 4"
  using fl_scaled [of n "- 2"] by (simp add: pow2_def)

section \<open>RGB LED\<close>

lemma float_of_int_small [simp]: "\<bar>n\<bar> < 2 ^ 53 \<Longrightarrow> float_of_int n = of_int n"
  by (simp add: float_of_int_def fl_of_int)

lemma fl_100 [simp]: "fl 100 = 100"
  using fl_of_int [of 100] by simp

lemma fl_1 [simp]: "fl 1 = 1"
  using fl_of_int [of 1] by simp

lemma rgb_duty_eq: "rgb_duty v = fl (100 - fl (fl (of_int v / 255) * 100))"
  by (simp add: rgb_duty_def int_truediv_def float_sub_def float_mul_def)

lemma rgb_duty_range:
  assumes "0 \<le> v" "v \<le> 255"
  shows "0 \<le> rgb_duty v" and "rgb_duty v \<le> 100"
proof -
  let ?a = "fl (of_int v / 255)"
  let ?b = "fl (?a * 100)"
  have "fl 0 \<le> ?a" using assms by (intro fl_mono) simp
  then have a0: "0 \<le> ?a" by simp
  have "?a \<le> fl 1" using assms by (intro fl_mono) simp
  then have a1: "?a \<le> 1" by simp
  have "fl 0 \<le> ?b" using a0 by (intro fl_mono) simp
  then have b0: "0 \<le> ?b" by simp
  have "?b \<le> fl 100" using a1 by (intro fl_mono) simp
  then have b1: "?b \<le> 100" by simp
  have "fl 0 \<le> fl (100 - ?b)" using b1 by (intro fl_mono) simp
  then show "0 \<le> rgb_duty v" by (simp add: rgb_duty_eq)
  have "fl (100 - ?b) \<le> fl 100" using b0 by (intro fl_mono) simp
  then show "rgb_duty v \<le> 100" by (simp add: rgb_duty_eq)
qed





lemma set_rgb_accepted:
  assumes "red_pwm s = Some rp" "green_pwm s = Some gp" "blue_pwm s = Some bp"
    and "0 \<le> rgb_duty r \<and> rgb_duty r \<le> 100" "0 \<le> rgb_duty g \<and> rgb_duty g \<le> 100"
        "0 \<le> rgb_duty b \<and> rgb_duty b \<le> 100"
  shows "set_rgb s r g b =
    (emit s [Pwm_ChangeDutyCycle (pwm_pin rp) (rgb_duty r), Pwm_ChangeDutyCycle (pwm_pin gp) (rgb_duty g),
             Pwm_ChangeDutyCycle (pwm_pin bp) (rgb_duty b)])
      \<lparr>current_r := Some r, current_g := Some g, current_b := Some b\<rparr>"
  using assms by (simp add: set_rgb_def ChangeDutyCycle_def emit_def)

lemma set_rgb_leds [simp]: "leds_absent (set_rgb s r g b) = leds_absent s"
  by (simp add: set_rgb_def ChangeDutyCycle_def emit_def leds_absent_def split: option.splits)

lemma set_rgb_current:
  "\<not> leds_absent s \<Longrightarrow>
   (current_r (set_rgb s r g b), current_g (set_rgb s r g b), current_b (set_rgb s r g b)) =
   (if 0 \<le> rgb_duty r \<and> rgb_duty r \<le> 100 \<and> 0 \<le> rgb_duty g \<and> rgb_duty g \<le> 100 \<and>
       0 \<le> rgb_duty b \<and> rgb_duty b \<le> 100
    then (Some r, Some g, Some b) else (current_r s, current_g s, current_b s))"
  by (auto simp add: set_rgb_def ChangeDutyCycle_def emit_def leds_absent_def split: option.splits)


text \<open>With a step that is a multiple of a quarter, the interpolation is exact.\<close>

lemma interim_quarters:
  assumes "\<bar>c\<bar> \<le> 2 ^ 20" "\<bar>i\<bar> \<le> 2 ^ 10" "\<bar>k\<bar> \<le> 2 ^ 20" "0 \<le> 4 * c + k * i"
  shows "interim c i (of_int k / 4) = (4 * c + k * i) div 4"
proof -
  have ki: "\<bar>k * i\<bar> \<le> 2 ^ 20 * 2 ^ 10"
    unfolding abs_mult using assms(2,3) by (intro mult_mono) auto
  have c: "float_of_int c = of_int c" using assms(1) by (intro float_of_int_small) simp
  have i: "float_of_int i = of_int i" using assms(2) by (intro float_of_int_small) simp
  have "float_mul (of_int i) (of_int k / 4) = fl (of_int (k * i) / 4)"
    by (simp add: float_mul_def mult.commute)
  also have "\<dots> = of_int (k * i) / 4" using ki by (intro fl_quarters) simp
  finally have m: "float_mul (of_int i) (of_int k / 4) = of_int (k * i) / 4" .
  have "float_add (of_int c) (of_int (k * i) / 4) = fl (of_int (4 * c + k * i) / 4)"
    by (simp add: float_add_def add_divide_distrib)
  also have "\<dots> = of_int (4 * c + k * i) / 4"
    using ki assms(1) by (intro fl_quarters) (simp add: abs_le_iff abs_less_iff)
  finally have a: "float_add (of_int c) (of_int (k * i) / 4) = of_int (4 * c + k * i) / 4" .
  have "(0::rat) \<le> of_int (4 * c + k * i)" using assms(4) by (simp only: of_int_0_le_iff)
  then have "(0::rat) \<le> of_int (4 * c + k * i) / 4" by simp
  then have "int_of_float (of_int (4 * c + k * i) / 4) = \<lfloor>(of_int (4 * c + k * i) :: rat) / of_int 4\<rfloor>"
    unfolding int_of_float_def by (simp only: if_True of_int_numeral)
  also have "\<dots> = (4 * c + k * i) div 4" by (rule floor_divide_of_int_eq)
  finally show ?thesis unfolding interim_def c i m a .
qed

lemma clamp255_range: "0 \<le> clamp255 v" "clamp255 v \<le> 255"
  by (simp_all add: clamp255_def)

lemma leds_absent_emit [simp]: "leds_absent (emit s es) = leds_absent s"
  by (simp add: leds_absent_def emit_def)

lemma current_emit [simp]:
  "current_r (emit s es) = current_r s" "current_g (emit s es) = current_g s"
  "current_b (emit s es) = current_b s"
  by (simp_all add: emit_def)

lemma set_rgb_clamped:
  assumes "\<not> leds_absent s"
  shows "current_r (set_rgb s (clamp255 x) (clamp255 y) (clamp255 z)) = Some (clamp255 x)"
    and "current_g (set_rgb s (clamp255 x) (clamp255 y) (clamp255 z)) = Some (clamp255 y)"
    and "current_b (set_rgb s (clamp255 x) (clamp255 y) (clamp255 z)) = Some (clamp255 z)"
  using set_rgb_current [OF assms, of "clamp255 x" "clamp255 y" "clamp255 z"]
    rgb_duty_range [OF clamp255_range, of x] rgb_duty_range [OF clamp255_range, of y]
    rgb_duty_range [OF clamp255_range, of z]
  by simp_all

lemma fade_loop_present:
  assumes "\<not> leds_absent s" "current_r s = Some cr" "current_g s = Some cg" "current_b s = Some cb"
    and "float_truediv d (float_of_int 1000) = Inr secs" "0 \<le> secs"
  shows "\<exists>s'. fade_loop s rs gs bs d ns =
           (None, zip (accum1 cr rs ns) (zip (accum1 cg gs ns) (accum1 cb bs ns)), s') \<and>
         \<not> leds_absent s' \<and>
         current_r s' = Some (last (cr # accum1 cr rs ns)) \<and>
         current_g s' = Some (last (cg # accum1 cg gs ns)) \<and>
         current_b s' = Some (last (cb # accum1 cb bs ns))"
  using assms(1-4)
proof (induction ns arbitrary: s cr cg cb)
  case Nil
  then show ?case by simp
next
  case (Cons i ns)
  define vr where "vr = clamp255 (interim cr i rs)"
  define vg where "vg = clamp255 (interim cg i gs)"
  define vb where "vb = clamp255 (interim cb i bs)"
  define s2 where "s2 = emit (set_rgb s vr vg vb) [Sleep secs]"
  have c2: "current_r s2 = Some vr" "current_g s2 = Some vg" "current_b s2 = Some vb"
    using set_rgb_clamped [OF Cons.prems(1)] by (simp_all add: s2_def vr_def vg_def vb_def)
  have l2: "\<not> leds_absent s2" using Cons.prems(1) by (simp add: s2_def)
  from Cons.IH [OF l2 c2] obtain s' where
    s': "fade_loop s2 rs gs bs d ns =
          (None, zip (accum1 vr rs ns) (zip (accum1 vg gs ns) (accum1 vb bs ns)), s')"
        "\<not> leds_absent s'"
        "current_r s' = Some (last (vr # accum1 vr rs ns))"
        "current_g s' = Some (last (vg # accum1 vg gs ns))"
        "current_b s' = Some (last (vb # accum1 vb bs ns))"
    by blast
  have "fade_loop s rs gs bs d (i # ns) =
          (None, (vr, vg, vb) # zip (accum1 vr rs ns) (zip (accum1 vg gs ns) (accum1 vb bs ns)), s')"
    using Cons.prems(2-4) assms(5,6) s'(1)
    by (simp add: sleep_def vr_def vg_def vb_def s2_def)
  then show ?case using s'(2-5) by (simp add: vr_def vg_def vb_def)
qed


lemma upto_0_20: "[0..20] = [0, 1, 2, 3, 4, 5, 6, 7, 8, 9, 10, 11, 12, 13, 14, 15, 16, 17, 18, 19, 20::int]"
  by (simp add: upto_rec1)

lemma fl_nonneg: "0 \<le> q \<Longrightarrow> 0 \<le> fl q"
  using fl_mono [of 0 q] by simp

lemma fade_delay:
  assumes "0 \<le> ms"
  shows "\<exists>delay secs. int_truediv ms 20 = Inr delay \<and>
           float_truediv delay (float_of_int 1000) = Inr secs \<and> 0 \<le> secs"
proof -
  have "0 \<le> fl (of_int ms / 20)" using assms by (intro fl_nonneg) simp
  then have "0 \<le> fl (fl (of_int ms / 20) / 1000)" by (intro fl_nonneg) simp
  then show ?thesis by (simp add: int_truediv_def float_truediv_def)
qed

lemma set_rgb_fade_present:
  assumes "\<not> leds_absent s" "current_r s = Some cr" "current_g s = Some cg" "current_b s = Some cb"
    and "0 \<le> ms"
  shows "\<exists>s'. set_rgb_fade s rt gt bt ms =
           (None, zip (accum1 cr (fl (of_int (rt - cr) / 20)) [0..20])
                   (zip (accum1 cg (fl (of_int (gt - cg) / 20)) [0..20])
                        (accum1 cb (fl (of_int (bt - cb) / 20)) [0..20])), s') \<and>
         current_r s' = Some (last (cr # accum1 cr (fl (of_int (rt - cr) / 20)) [0..20])) \<and>
         current_g s' = Some (last (cg # accum1 cg (fl (of_int (gt - cg) / 20)) [0..20])) \<and>
         current_b s' = Some (last (cb # accum1 cb (fl (of_int (bt - cb) / 20)) [0..20]))"
proof -
  from fade_delay [OF assms(5)] obtain delay secs where
    d: "int_truediv ms 20 = Inr delay" "float_truediv delay (float_of_int 1000) = Inr secs" "0 \<le> secs"
    by blast
  have "set_rgb_fade s rt gt bt ms =
          fade_loop s (fl (of_int (rt - cr) / 20)) (fl (of_int (gt - cg) / 20))
            (fl (of_int (bt - cb) / 20)) delay [0..20]"
    using assms(2-4) d(1) by (simp add: set_rgb_fade_def int_truediv_def del: fade_loop.simps)
  then show ?thesis
    using fade_loop_present [OF assms(1-4) d(2,3), where rs = "fl (of_int (rt - cr) / 20)"
        and gs = "fl (of_int (gt - cg) / 20)" and bs = "fl (of_int (bt - cb) / 20)" and ns = "[0..20]"]
    by (simp only:) blast
qed



lemma interim_5:
  "\<bar>c\<bar> \<le> 2 ^ 20 \<Longrightarrow> \<bar>i\<bar> \<le> 2 ^ 10 \<Longrightarrow> 0 \<le> 4 * c + 20 * i \<Longrightarrow>
   interim c i 5 = (4 * c + 20 * i) div 4"
  using interim_quarters [of c i 20] by simp


lemma fl_5: "fl 5 = 5"
  using fl_of_int [of 5] by simp



lemma accum1_grey:
  "accum1 0 5 [0..20] =
     [0, 5, 15, 30, 50, 75, 105, 140, 180, 225, 255, 255, 255, 255, 255, 255, 255, 255, 255, 255, 255]"
  by (simp add: upto_0_20 interim_5 clamp255_def)

lemma board0_leds: "\<not> leds_absent board0"
  by (simp add: leds_absent_def board0_def)

lemma board0_current:
  "current_r board0 = Some 0" "current_g board0 = Some 0" "current_b board0 = Some 0"
  by (simp_all add: board0_def)

text \<open>
  C6. On a board with its three LED channels and the stored values \<open>(0, 0, 0)\<close>, a fade
  to \<open>(100, 100, 100)\<close> over 100 ms sends 0, 5, 15, 30, 50, 75, 105, ... on each channel
  and ends at 255: every pass adds its multiple of the step to the value that the pass
  before has stored, not to the value stored when the fade started, so the values are
  not the linear interpolation 0, 5, 10, ..., 100 and the target is overshot.
\<close>

theorem fade_grey_accumulates:
  "fst (snd (set_rgb_fade board0 100 100 100 100)) =
     [(0, 0, 0), (5, 5, 5), (15, 15, 15), (30, 30, 30), (50, 50, 50), (75, 75, 75),
      (105, 105, 105), (140, 140, 140), (180, 180, 180), (225, 225, 225), (255, 255, 255),
      (255, 255, 255), (255, 255, 255), (255, 255, 255), (255, 255, 255), (255, 255, 255),
      (255, 255, 255), (255, 255, 255), (255, 255, 255), (255, 255, 255), (255, 255, 255)] \<and>
   current_r (snd (snd (set_rgb_fade board0 100 100 100 100))) = Some 255 \<and>
   current_g (snd (snd (set_rgb_fade board0 100 100 100 100))) = Some 255 \<and>
   current_b (snd (snd (set_rgb_fade board0 100 100 100 100))) = Some 255"
proof -
  have st: "fl (of_int (100 - 0) / 20) = 5" using fl_5 by simp
  from set_rgb_fade_present [OF board0_leds board0_current, of 100 100 100 100]
  obtain s' where
    "set_rgb_fade board0 100 100 100 100 =
       (None, zip (accum1 0 5 [0..20]) (zip (accum1 0 5 [0..20]) (accum1 0 5 [0..20])), s')"
    "current_r s' = Some (last (0 # accum1 0 5 [0..20]))"
    "current_g s' = Some (last (0 # accum1 0 5 [0..20]))"
    "current_b s' = Some (last (0 # accum1 0 5 [0..20]))"
    unfolding st by auto
  then show ?thesis unfolding accum1_grey by simp
qed










section \<open>Render\<close>

lemma fl_6_7: "fl (6 / 7) = 7720456504063707 / 9007199254740992"
  by code_simp

lemma fl_240_c: "fl (240 / (7720456504063707 / 9007199254740992)) = 280"
  by code_simp

lemma fl_half: "fl (1 / 2) = 1 / 2"
  using fl_scaled [of 1 "- 1"] by (simp add: pow2_def)

lemma fl_240 [simp]: "fl 240 = 240"
  using fl_of_int [of 240] by simp

lemma fl_280 [simp]: "fl 280 = 280"
  using fl_of_int [of 280] by simp

text \<open>No float lies between the float next to 6/7 and its successor.\<close>

lemma fl_above_screen_aspect:
  assumes "7720456504063707 / 9007199254740992 < fl q"
  shows "7720456504063708 / 9007199254740992 \<le> fl q"
proof (cases "1 \<le> q")
  case True
  then have "fl 1 \<le> fl q" by (rule fl_mono)
  then show ?thesis by simp
next
  case False
  have "\<not> q \<le> 1 / 2"
  proof
    assume "q \<le> 1 / 2"
    then have "fl q \<le> fl (1 / 2)" by (rule fl_mono)
    with assms show False by (simp add: fl_half)
  qed
  then have q: "1 / 2 \<le> q" "q < 1" "0 < q" using False by simp_all
  have "pow2 (- 1) \<le> q" "q < pow2 (- 1 + 1)" using q by (simp_all add: pow2_def)
  then have b: "binade q = - 1" by (rule binade_unique)
  define k where "k = round_half_even (q / pow2 (- 53))"
  have f: "fl q = of_int k / 9007199254740992"
    using fl_pos_eq [OF q(3)] unfolding b k_def by (simp add: pow2_def)
  have "(7720456504063707::rat) < of_int k" using assms unfolding f by simp
  then have "(of_int 7720456504063707 :: rat) < of_int k" by simp
  then have "7720456504063707 < k" by (simp only: of_int_less_iff)
  then have "7720456504063708 \<le> k" by simp
  then have "(of_int 7720456504063708 :: rat) \<le> of_int k" by (simp only: of_int_le_iff)
  then show ?thesis unfolding f by simp
qed

lemma screen_aspect: "int_truediv 240 280 = Inr (7720456504063707 / 9007199254740992)"
  using fl_6_7 by (simp add: int_truediv_def)

lemma floor_ge: "of_int n \<le> (x::rat) \<Longrightarrow> n \<le> \<lfloor>x\<rfloor>"
  by (simp add: le_floor_iff)

lemma scale_box_wider:
  assumes "0 < w" "0 < h" "7720456504063707 / 9007199254740992 < fl (of_int w / of_int h)"
  defines "nw \<equiv> \<lfloor>fl (280 * fl (of_int w / of_int h))\<rfloor>"
  shows "scale_box w h 240 280 =
           Inr ((nw, 280), ((nw - 240) div 2, 0, (nw - 240) div 2 + 240, 280))"
    and "240 \<le> nw"
proof -
  let ?a = "fl (of_int w / of_int h)"
  have "7720456504063708 / 9007199254740992 \<le> ?a"
    using assms(3) by (rule fl_above_screen_aspect)
  then have "240 \<le> 280 * ?a" by simp
  then have "fl 240 \<le> fl (280 * ?a)" by (rule fl_mono)
  then have ge: "240 \<le> fl (280 * ?a)" by simp
  then have "of_int 240 \<le> fl (280 * ?a)" by simp
  then show "240 \<le> nw" unfolding nw_def by (rule floor_ge)
  have "0 \<le> fl (280 * ?a)" using ge by simp
  then have "int_of_float (fl (280 * ?a)) = nw" by (simp add: int_of_float_def nw_def)
  then show "scale_box w h 240 280 =
           Inr ((nw, 280), ((nw - 240) div 2, 0, (nw - 240) div 2 + 240, 280))"
    using assms(2,3) screen_aspect
    by (simp add: scale_box_def int_truediv_def float_mul_def float_of_int_def Let_def)
qed

lemma scale_box_taller:
  assumes "0 < w" "0 < h" "fl (of_int w / of_int h) \<le> 7720456504063707 / 9007199254740992"
  defines "nh \<equiv> \<lfloor>fl (240 / fl (of_int w / of_int h))\<rfloor>"
  shows "scale_box w h 240 280 =
           Inr ((240, nh), (0, (nh - 280) div 2, 240, (nh - 280) div 2 + 280))"
    and "280 \<le> nh"
proof -
  let ?a = "fl (of_int w / of_int h)"
  have a: "0 < ?a" using assms(1,2) by (intro fl_pos) simp
  have "280 * ?a \<le> 240" using assms(3) by simp
  then have "280 \<le> 240 / ?a" using a by (simp add: pos_le_divide_eq)
  then have "fl 280 \<le> fl (240 / ?a)" by (rule fl_mono)
  then have ge: "280 \<le> fl (240 / ?a)" by simp
  then have "of_int 280 \<le> fl (240 / ?a)" by simp
  then show "280 \<le> nh" unfolding nh_def by (rule floor_ge)
  have "0 \<le> fl (240 / ?a)" using ge by simp
  then have "int_of_float (fl (240 / ?a)) = nh" by (simp add: int_of_float_def nh_def)
  then show "scale_box w h 240 280 =
           Inr ((240, nh), (0, (nh - 280) div 2, 240, (nh - 280) div 2 + 280))"
    using assms(2,3) a screen_aspect
    by (simp add: scale_box_def int_truediv_def float_truediv_def float_of_int_def Let_def)
qed

lemma scale_box_equal:
  assumes "0 < w" "0 < h" "w * 280 = h * 240"
  shows "scale_box w h 240 280 = Inr ((240, 280), (0, 0, 240, 280))"
proof -
  have "(of_int (w * 280) :: rat) = of_int (h * 240)" using assms(3) by simp
  then have "(of_int w :: rat) * 280 = of_int h * 240" by simp
  then have "(of_int w :: rat) / of_int h = 6 / 7" using assms(2) by (simp add: field_simps)
  then have a: "fl (of_int w / of_int h) = 7720456504063707 / 9007199254740992"
    by (simp only: fl_6_7)
  show ?thesis
    using scale_box_taller(1) [OF assms(1,2)] unfolding a fl_240_c by simp
qed

lemma length_encode_pixel [simp]: "length (encode_pixel p) = 2"
  by (simp add: encode_pixel_def bytes565_def split: prod.splits)

lemma pil_getpixel_inside:
  "0 \<le> x \<Longrightarrow> x < width img \<Longrightarrow> 0 \<le> y \<Longrightarrow> y < height img \<Longrightarrow>
   pil_getpixel img x y = (case pixels img x y of (r, g, b) \<Rightarrow> Inr (uint r, uint g, uint b))"
  by (simp add: pil_getpixel_def)

lemma row_pixels_inside:
  assumes "0 \<le> y" "y < height img" "\<forall>x \<in> set xs. 0 \<le> x \<and> x < width img"
  shows "row_pixels img y xs = Inr (concat (map (\<lambda>x. encode_pixel (pixels img x y)) xs))"
  using assms(3)
proof (induction xs)
  case Nil
  then show ?case by simp
next
  case (Cons x xs)
  then show ?case
    using assms(1,2) by (simp add: pil_getpixel_inside encode_pixel_def split: prod.splits)
qed

lemma image_pixels_inside:
  assumes "\<forall>y \<in> set ys. 0 \<le> y \<and> y < height img" "\<forall>x \<in> set xs. 0 \<le> x \<and> x < width img"
  shows "image_pixels img ys xs =
           Inr (concat (map (\<lambda>y. concat (map (\<lambda>x. encode_pixel (pixels img x y)) xs)) ys))"
  using assms(1)
proof (induction ys)
  case Nil
  then show ?case by simp
next
  case (Cons y ys)
  then show ?case using assms(2) by (simp add: row_pixels_inside)
qed

lemma length_concat_rows:
  "length (concat (map (\<lambda>y. concat (map (\<lambda>x. encode_pixel (f x y)) xs)) ys)) =
     2 * length xs * length ys"
proof -
  have row: "length (concat (map (\<lambda>x. encode_pixel (f x y)) xs)) = 2 * length xs" for y
    by (induction xs) simp_all
  show ?thesis by (induction ys) (simp_all add: row)
qed

lemma upto_range: "\<forall>x \<in> set [0 .. n - 1]. 0 \<le> x \<and> x < n"
  by simp


lemma pil_resize_size:
  assumes "1 \<le> nw" "nw \<le> C_INT_MAX" "1 \<le> nh" "nh \<le> C_INT_MAX" "alloc nw nh"
  shows "\<exists>resized. pil_resize resample alloc img nw nh = Inr resized \<and>
           width resized = nw \<and> height resized = nh"
  using assms by (simp add: pil_resize_def C_INT_MAX_def C_INT_MIN_def)

lemma pil_resize_overflow:
  assumes "C_INT_MAX < nw \<or> C_INT_MAX < nh" "width img \<le> C_INT_MAX" "height img \<le> C_INT_MAX"
  shows "pil_resize resample alloc img nw nh = Inl OverflowError"
  using assms by (auto simp add: pil_resize_def)

lemma pil_resize_no_memory:
  assumes "1 \<le> nw" "nw \<le> C_INT_MAX" "1 \<le> nh" "nh \<le> C_INT_MAX" "\<not> alloc nw nh"
  shows "pil_resize resample alloc img nw nh = Inl MemoryError"
  using assms by (simp add: pil_resize_def C_INT_MAX_def C_INT_MIN_def)

text \<open>An exception of \<open>resize\<close> leaves \<open>render\<close> before anything is drawn.\<close>

lemma render_resize_error:
  assumes "scale_box (width img) (height img) 240 280 = Inr ((nw, nh), (l, u, r, b))"
    and "pil_resize resample alloc img nw nh = Inl e"
  shows "render resample alloc d (PilImage img) = (Some e, d)"
  using assms by (simp add: render_def LCD_WIDTH_def LCD_HEIGHT_def)

text \<open>
  When the resized image is built and the crop box lies inside it, the pixel data are the
  pixels of the resized image inside the box, row by row.
\<close>

lemma render_cropped:
  assumes sb: "scale_box (width img) (height img) 240 280 =
                 Inr ((nw, nh), (ox, oy, ox + 240, oy + 280))"
    and box: "0 \<le> ox" "ox + 240 \<le> nw" "0 \<le> oy" "oy + 280 \<le> nh"
    and fits: "nw \<le> C_INT_MAX" "nh \<le> C_INT_MAX" "alloc nw nh"
  shows "\<exists>resized. pil_resize resample alloc img nw nh = Inr resized \<and>
           width resized = nw \<and> height resized = nh \<and>
           render resample alloc d (PilImage img) =
             draw_image d 0 0 240 280
               (concat (map (\<lambda>y. concat (map (\<lambda>x.
                  encode_pixel (pixels resized (x + ox) (y + oy))) [0 .. 239])) [0 .. 279]))"
proof -
  have "1 \<le> nw" "1 \<le> nh" using box by simp_all
  from pil_resize_size [where alloc = alloc and nw = nw and nh = nh, OF this(1) fits(1) this(2) fits(2,3)]
  obtain resized where
    rz: "pil_resize resample alloc img nw nh = Inr resized" "width resized = nw" "height resized = nh"
    by blast
  define cropped where "cropped =
    \<lparr>width = 240, height = 280,
     pixels = (\<lambda>x y. if 0 \<le> x + ox \<and> x + ox < width resized \<and> 0 \<le> y + oy \<and> y + oy < height resized
                    then pixels resized (x + ox) (y + oy) else (0, 0, 0))\<rparr>"
  have cr: "pil_crop resized ox oy (ox + 240) (oy + 280) = Inr cropped"
    by (simp add: pil_crop_def cropped_def)
  have ys: "\<forall>y \<in> set [0 .. 279]. 0 \<le> y \<and> y < height cropped"
    and xs: "\<forall>x \<in> set [0 .. 239]. 0 \<le> x \<and> x < width cropped"
    by (simp_all add: cropped_def)
  have px: "concat (map (\<lambda>y. concat (map (\<lambda>x. encode_pixel (pixels cropped x y)) [0 .. 239])) [0 .. 279]) =
            concat (map (\<lambda>y. concat (map (\<lambda>x. encode_pixel (pixels resized (x + ox) (y + oy))) [0 .. 239])) [0 .. 279])"
  proof -
    have "encode_pixel (pixels cropped x y) = encode_pixel (pixels resized (x + ox) (y + oy))"
      if "x \<in> set [0 .. 239]" "y \<in> set [0 .. 279]" for x y
      using that box rz(2,3) by (simp add: cropped_def)
    then show ?thesis
      by (intro arg_cong [where f = concat] map_cong refl) simp
  qed
  have ip: "image_pixels cropped [0 .. 279] [0 .. 239] =
      Inr (concat (map (\<lambda>y. concat (map (\<lambda>x. encode_pixel (pixels resized (x + ox) (y + oy))) [0 .. 239])) [0 .. 279]))"
    unfolding image_pixels_inside [OF ys xs] px ..
  have "render resample alloc d (PilImage img) =
          draw_image d 0 0 240 280
            (concat (map (\<lambda>y. concat (map (\<lambda>x.
               encode_pixel (pixels resized (x + ox) (y + oy))) [0 .. 239])) [0 .. 279]))"
    using sb rz(1) cr ip
    by (simp add: render_def LCD_WIDTH_def LCD_HEIGHT_def)
  then show ?thesis using rz by blast
qed

text \<open>The three outcomes of \<open>render\<close> on a Pillow image, by the size it is resized to.\<close>

lemma render_outcome:
  assumes sb: "scale_box (width img) (height img) 240 280 =
                 Inr ((nw, nh), (ox, oy, ox + 240, oy + 280))"
    and box: "0 \<le> ox" "ox + 240 \<le> nw" "0 \<le> oy" "oy + 280 \<le> nh"
    and img: "width img \<le> C_INT_MAX" "height img \<le> C_INT_MAX"
  shows "if C_INT_MAX < nw \<or> C_INT_MAX < nh
         then render resample alloc d (PilImage img) = (Some OverflowError, d)
         else if \<not> alloc nw nh
         then render resample alloc d (PilImage img) = (Some MemoryError, d)
         else \<exists>resized. pil_resize resample alloc img nw nh = Inr resized \<and>
           width resized = nw \<and> height resized = nh \<and>
           render resample alloc d (PilImage img) =
             draw_image d 0 0 240 280
               (concat (map (\<lambda>y. concat (map (\<lambda>x.
                  encode_pixel (pixels resized (x + ox) (y + oy))) [0 .. 239])) [0 .. 279]))"
proof (cases "C_INT_MAX < nw \<or> C_INT_MAX < nh")
  case True
  have "render resample alloc d (PilImage img) = (Some OverflowError, d)"
    using sb pil_resize_overflow [OF True img] by (rule render_resize_error)
  then show ?thesis unfolding if_P [OF True] .
next
  case False
  then have fits: "nw \<le> C_INT_MAX" "nh \<le> C_INT_MAX" by simp_all
  have one: "1 \<le> nw" "1 \<le> nh" using box by simp_all
  show ?thesis
  proof (cases "alloc nw nh")
    case True
    then have n: "\<not> \<not> alloc nw nh" by simp
    show ?thesis unfolding if_not_P [OF False] if_not_P [OF n]
      using sb box fits True by (rule render_cropped)
  next
    case F: False
    have "render resample alloc d (PilImage img) = (Some MemoryError, d)"
      using sb pil_resize_no_memory [where alloc = alloc and nw = nw and nh = nh,
          OF one(1) fits(1) one(2) fits(2) F]
      by (rule render_resize_error)
    then show ?thesis unfolding if_not_P [OF False] if_P [OF F] .
  qed
qed

lemma scale_geometry:
  assumes "0 < w" "0 < h"
  shows "\<exists>aspect nw nh ox oy.
     int_truediv w h = Inr aspect \<and>
     scale_box w h 240 280 = Inr ((nw, nh), (ox, oy, ox + 240, oy + 280)) \<and>
     (if 7720456504063707 / 9007199254740992 < aspect
      then nh = 280 \<and> nw = \<lfloor>fl (280 * aspect)\<rfloor> \<and> ox = (nw - 240) div 2 \<and> oy = 0
      else nw = 240 \<and> nh = \<lfloor>fl (240 / aspect)\<rfloor> \<and> ox = 0 \<and> oy = (nh - 280) div 2) \<and>
     0 \<le> ox \<and> ox + 240 \<le> nw \<and> 0 \<le> oy \<and> oy + 280 \<le> nh"
proof -
  let ?a = "fl (of_int w / of_int h)"
  have a: "int_truediv w h = Inr ?a"
    using assms(2) by (simp add: int_truediv_def)
  show ?thesis
  proof (cases "7720456504063707 / 9007199254740992 < ?a")
    case True
    define nw where "nw = \<lfloor>fl (280 * ?a)\<rfloor>"
    define ox where "ox = (nw - 240) div 2"
    have sb: "scale_box w h 240 280 = Inr ((nw, 280), (ox, 0, ox + 240, 0 + 280))"
      and nw: "240 \<le> nw"
      using scale_box_wider [OF assms True] by (simp_all add: nw_def ox_def)
    have box: "0 \<le> ox" "ox + 240 \<le> nw"
      using nw by (simp_all add: ox_def)
    show ?thesis using a True sb box by (simp add: nw_def ox_def)
  next
    case False
    then have le: "?a \<le> 7720456504063707 / 9007199254740992" by simp
    define nh where "nh = \<lfloor>fl (240 / ?a)\<rfloor>"
    define oy where "oy = (nh - 280) div 2"
    have sb: "scale_box w h 240 280 = Inr ((240, nh), (0, oy, 0 + 240, oy + 280))"
      and nh: "280 \<le> nh"
      using scale_box_taller [OF assms le] by (simp_all add: nh_def oy_def)
    have box: "0 \<le> oy" "oy + 280 \<le> nh"
      using nh by (simp_all add: oy_def)
    show ?thesis using a False sb box by (simp add: nh_def oy_def)
  qed
qed

lemma scale_box_500_300: "scale_box 500 300 240 280 = Inr ((466, 280), (113, 0, 353, 280))"
  by code_simp

lemma scale_box_9000000_1:
  "scale_box 9000000 1 240 280 = Inr ((2520000000, 280), (1259999880, 0, 1260000120, 280))"
  by code_simp

text \<open>A numpy array as canvas: \<open>render\<close> raises \<open>NameError\<close> and draws nothing.\<close>

lemma render_ndarray: "render resample alloc d NdArray = (Some NameError, d)"
  by (simp add: render_def)

text \<open>
  The resized size is truncated, not rounded: for a 500 by 300 image the spec's rounding
  gives the width 467 (in floats and in exact arithmetic), \<open>render\<close> resizes to 466.
\<close>

theorem scale_truncates:
  "spec_resized 500 300 240 280 = (467, 280) \<and>
   round_half_even (280 * (500 / 300)) = 467 \<and>
   scale_box 500 300 LCD_WIDTH LCD_HEIGHT = Inr ((466, 280), (113, 0, 353, 280))"
  by code_simp

text \<open>
  C1. A numpy array as canvas makes \<open>render\<close> raise \<open>NameError\<close> (\<open>Image\<close> is never
  imported) before any pixel is produced. For every Pillow image with a width and a height
  above zero, \<open>render\<close> resizes to the size that its scaling computes. When a resized dimension does not fit a C integer,
  \<open>resize\<close> raises \<open>OverflowError\<close>; when the resized image cannot be built, it raises
  \<open>MemoryError\<close>; in both cases nothing is drawn. In every other case \<open>render\<close> raises no
  exception and calls \<open>draw_image\<close> at \<open>(0, 0)\<close> with the panel size and with pixel data
  of exactly \<open>240 * 280 * 2\<close> bytes, whatever the size of the image.
\<close>

theorem render_length:
  assumes "0 < width img" "width img \<le> C_INT_MAX" "0 < height img" "height img \<le> C_INT_MAX"
  shows "render resample alloc d NdArray = (Some NameError, d) \<and>
    (\<exists>nw nh box.
     scale_box (width img) (height img) LCD_WIDTH LCD_HEIGHT = Inr ((nw, nh), box) \<and>
     (if C_INT_MAX < nw \<or> C_INT_MAX < nh
      then render resample alloc d (PilImage img) = (Some OverflowError, d)
      else if \<not> alloc nw nh
      then render resample alloc d (PilImage img) = (Some MemoryError, d)
      else \<exists>pixel_data.
             int (length pixel_data) = LCD_WIDTH * LCD_HEIGHT * 2 \<and>
             render resample alloc d (PilImage img) =
               draw_image d 0 0 LCD_WIDTH LCD_HEIGHT pixel_data \<and>
             fst (render resample alloc d (PilImage img)) = None))"
    (is "?numpy \<and> ?pillow")
proof -
  from scale_geometry [OF assms(1,3)] obtain aspect nw nh ox oy where
    sb: "scale_box (width img) (height img) 240 280 = Inr ((nw, nh), (ox, oy, ox + 240, oy + 280))"
    and box: "0 \<le> ox" "ox + 240 \<le> nw" "0 \<le> oy" "oy + 280 \<le> nh"
    by blast
  note o = render_outcome [OF sb box assms(2,4), of resample alloc d]
  have m: "if C_INT_MAX < nw \<or> C_INT_MAX < nh
      then render resample alloc d (PilImage img) = (Some OverflowError, d)
      else if \<not> alloc nw nh
      then render resample alloc d (PilImage img) = (Some MemoryError, d)
      else \<exists>pixel_data.
             int (length pixel_data) = 240 * 280 * 2 \<and>
             render resample alloc d (PilImage img) = draw_image d 0 0 240 280 pixel_data \<and>
             fst (render resample alloc d (PilImage img)) = None"
  proof (cases "C_INT_MAX < nw \<or> C_INT_MAX < nh")
    case True
    show ?thesis using o unfolding if_P [OF True] .
  next
    case False
    show ?thesis
    proof (cases "alloc nw nh")
      case F: False
      show ?thesis using o unfolding if_not_P [OF False] if_P [OF F] .
    next
      case True
      then have n: "\<not> \<not> alloc nw nh" by simp
      from o obtain resized where
        "pil_resize resample alloc img nw nh = Inr resized"
        "width resized = nw" "height resized = nh"
        and r: "render resample alloc d (PilImage img) =
             draw_image d 0 0 240 280
               (concat (map (\<lambda>y. concat (map (\<lambda>x.
                  encode_pixel (pixels resized (x + ox) (y + oy))) [0 .. 239])) [0 .. 279]))"
        unfolding if_not_P [OF False] if_not_P [OF n] by blast
      let ?data = "concat (map (\<lambda>y. concat (map (\<lambda>x.
                  encode_pixel (pixels resized (x + ox) (y + oy))) [0 .. 239])) [0 .. 279])"
      have "length ?data = 2 * length [0 .. 239 :: int] * length [0 .. 279 :: int]"
        by (rule length_concat_rows)
      then have l: "int (length ?data) = 240 * 280 * 2" by simp
      have "fst (draw_image d 0 0 240 280 ?data) = None"
        by (simp add: draw_image_def LCD_WIDTH_def LCD_HEIGHT_def)
      then have "\<exists>pixel_data.
             int (length pixel_data) = 240 * 280 * 2 \<and>
             render resample alloc d (PilImage img) = draw_image d 0 0 240 280 pixel_data \<and>
             fst (render resample alloc d (PilImage img)) = None"
        using r l by (intro exI [of _ ?data]) (simp only:)
      then show ?thesis unfolding if_not_P [OF False] if_not_P [OF n] .
    qed
  qed
  have n: ?numpy by (rule render_ndarray)
  have p: ?pillow unfolding LCD_WIDTH_def LCD_HEIGHT_def using sb m by blast
  show ?thesis using n p by (rule conjI)
qed

theorem render_length_witness:
  "0 < width image_500_300 \<and> width image_500_300 \<le> C_INT_MAX \<and>
   0 < height image_500_300 \<and> height image_500_300 \<le> C_INT_MAX \<and>
   scale_box (width image_500_300) (height image_500_300) LCD_WIDTH LCD_HEIGHT =
     Inr ((466, 280), (113, 0, 353, 280)) \<and>
   466 \<le> C_INT_MAX \<and> 280 \<le> C_INT_MAX \<and> roomy 466 280 \<and>
   (\<exists>pixel_data.
      int (length pixel_data) = LCD_WIDTH * LCD_HEIGHT * 2 \<and>
      render black roomy board0 (PilImage image_500_300) =
        draw_image board0 0 0 LCD_WIDTH LCD_HEIGHT pixel_data \<and>
      fst (render black roomy board0 (PilImage image_500_300)) = None) \<and>
   render black roomy board0 NdArray = (Some NameError, board0)"
proof -
  have a: "0 < width image_500_300" "width image_500_300 \<le> C_INT_MAX"
    "0 < height image_500_300" "height image_500_300 \<le> C_INT_MAX"
    by (simp_all add: image_500_300_def C_INT_MAX_def)
  have s: "scale_box (width image_500_300) (height image_500_300) LCD_WIDTH LCD_HEIGHT =
     Inr ((466, 280), (113, 0, 353, 280))"
    using scale_box_500_300 by (simp add: image_500_300_def LCD_WIDTH_def LCD_HEIGHT_def)
  have f: "466 \<le> C_INT_MAX" "280 \<le> C_INT_MAX" "roomy 466 280"
    by (simp_all add: C_INT_MAX_def roomy_def)
  from render_length [OF a, of black roomy board0] obtain nw nh box where
    n: "render black roomy board0 NdArray = (Some NameError, board0)"
    and sb: "scale_box (width image_500_300) (height image_500_300) LCD_WIDTH LCD_HEIGHT =
           Inr ((nw, nh), box)"
    and o: "if C_INT_MAX < nw \<or> C_INT_MAX < nh
      then render black roomy board0 (PilImage image_500_300) = (Some OverflowError, board0)
      else if \<not> roomy nw nh
      then render black roomy board0 (PilImage image_500_300) = (Some MemoryError, board0)
      else \<exists>pixel_data.
             int (length pixel_data) = LCD_WIDTH * LCD_HEIGHT * 2 \<and>
             render black roomy board0 (PilImage image_500_300) =
               draw_image board0 0 0 LCD_WIDTH LCD_HEIGHT pixel_data \<and>
             fst (render black roomy board0 (PilImage image_500_300)) = None"
    by blast
  from sb s have e: "nw = 466" "nh = 280" by simp_all
  have c: "\<not> (C_INT_MAX < nw \<or> C_INT_MAX < nh)" "\<not> \<not> roomy nw nh"
    by (simp_all add: e C_INT_MAX_def roomy_def)
  from o have x: "\<exists>pixel_data.
             int (length pixel_data) = LCD_WIDTH * LCD_HEIGHT * 2 \<and>
             render black roomy board0 (PilImage image_500_300) =
               draw_image board0 0 0 LCD_WIDTH LCD_HEIGHT pixel_data \<and>
             fst (render black roomy board0 (PilImage image_500_300)) = None"
    unfolding if_not_P [OF c(1)] if_not_P [OF c(2)] .
  show ?thesis using a s f x n by (intro conjI)
qed

text \<open>
  A 9000000 by 1 image is resized to the width \<open>int(280 * 9000000.0) = 2520000000\<close>,
  above \<open>2 ^ 31 - 1\<close>: \<open>resize\<close> raises \<open>OverflowError\<close>, and \<open>render\<close> produces no pixel
  data and draws nothing.
\<close>

theorem render_overflow:
  "0 < width image_9000000_1 \<and> width image_9000000_1 \<le> C_INT_MAX \<and>
   0 < height image_9000000_1 \<and> height image_9000000_1 \<le> C_INT_MAX \<and>
   render black roomy board0 (PilImage image_9000000_1) = (Some OverflowError, board0)"
proof -
  have sb: "scale_box (width image_9000000_1) (height image_9000000_1) 240 280 =
      Inr ((2520000000, 280), (1259999880, 0, 1260000120, 280))"
    using scale_box_9000000_1 by (simp add: image_9000000_1_def)
  have pr: "pil_resize black roomy image_9000000_1 2520000000 280 = Inl OverflowError"
    by (simp add: pil_resize_def image_9000000_1_def C_INT_MAX_def C_INT_MIN_def)
  have "render black roomy board0 (PilImage image_9000000_1) = (Some OverflowError, board0)"
    using sb pr by (rule render_resize_error)
  then show ?thesis by (simp add: image_9000000_1_def C_INT_MAX_def)
qed

text \<open>
  C2. A numpy array as canvas makes \<open>render\<close> raise \<open>NameError\<close> before any scaling.
  For every Pillow image with a width and a height above zero, with the aspect ratios
  as the floats \<open>width / height\<close> and \<open>240 / 280\<close>: a larger aspect ratio of the image
  gives the resized height 280 and the resized width \<open>int(280 * aspect)\<close>, truncated,
  and the crop box of the 240 columns from \<open>(width - 240) // 2\<close> on; otherwise the resized
  width is 240, the resized height \<open>int(240 / aspect)\<close>, truncated, and the crop box is
  the 280 rows from \<open>(height - 280) // 2\<close> on. An image of exactly the aspect ratio of the
  panel takes the second branch and is resized to 240 by 280 with nothing cropped. The
  crop box always lies inside the resized size. When the resized size fits C integers
  and the resized image can be built, the pixel data sent to \<open>draw_image\<close> are the pixels
  of the resized image inside the box, row by row; otherwise \<open>resize\<close> raises
  \<open>OverflowError\<close> or \<open>MemoryError\<close> and nothing is drawn.
\<close>

theorem render_scale_crop:
  assumes "0 < width img" "width img \<le> C_INT_MAX" "0 < height img" "height img \<le> C_INT_MAX"
  shows "render resample alloc d NdArray = (Some NameError, d) \<and>
    (\<exists>aspect nw nh ox oy.
     int_truediv (width img) (height img) = Inr aspect \<and>
     scale_box (width img) (height img) LCD_WIDTH LCD_HEIGHT =
       Inr ((nw, nh), (ox, oy, ox + 240, oy + 280)) \<and>
     (if fl (240 / 280) < aspect
      then nh = 280 \<and> nw = \<lfloor>fl (280 * aspect)\<rfloor> \<and> ox = (nw - 240) div 2 \<and> oy = 0
      else nw = 240 \<and> nh = \<lfloor>fl (240 / aspect)\<rfloor> \<and> ox = 0 \<and> oy = (nh - 280) div 2) \<and>
     (width img * 280 = height img * 240 \<longrightarrow> nw = 240 \<and> nh = 280 \<and> ox = 0 \<and> oy = 0) \<and>
     0 \<le> ox \<and> ox + 240 \<le> nw \<and> 0 \<le> oy \<and> oy + 280 \<le> nh \<and>
     (if C_INT_MAX < nw \<or> C_INT_MAX < nh
      then render resample alloc d (PilImage img) = (Some OverflowError, d)
      else if \<not> alloc nw nh
      then render resample alloc d (PilImage img) = (Some MemoryError, d)
      else \<exists>resized.
        pil_resize resample alloc img nw nh = Inr resized \<and>
        width resized = nw \<and> height resized = nh \<and>
        render resample alloc d (PilImage img) =
          draw_image d 0 0 240 280
            (concat (map (\<lambda>y. concat (map (\<lambda>x.
               encode_pixel (pixels resized (x + ox) (y + oy))) [0 .. 239])) [0 .. 279]))))"
    (is "?numpy \<and> ?pillow")
proof -
  have c: "fl (240 / 280) = 7720456504063707 / 9007199254740992"
    using fl_6_7 by simp
  from scale_geometry [OF assms(1,3)] obtain aspect nw nh ox oy where
    g: "int_truediv (width img) (height img) = Inr aspect"
      "scale_box (width img) (height img) 240 280 = Inr ((nw, nh), (ox, oy, ox + 240, oy + 280))"
      "if 7720456504063707 / 9007199254740992 < aspect
       then nh = 280 \<and> nw = \<lfloor>fl (280 * aspect)\<rfloor> \<and> ox = (nw - 240) div 2 \<and> oy = 0
       else nw = 240 \<and> nh = \<lfloor>fl (240 / aspect)\<rfloor> \<and> ox = 0 \<and> oy = (nh - 280) div 2"
      "0 \<le> ox" "ox + 240 \<le> nw" "0 \<le> oy" "oy + 280 \<le> nh"
    by blast
  note o = render_outcome [OF g(2) g(4-7) assms(2,4), of resample alloc d]
  have e: "nw = 240 \<and> nh = 280 \<and> ox = 0 \<and> oy = 0" if eq: "width img * 280 = height img * 240"
  proof -
    have "(of_int (width img * 280) :: rat) = of_int (height img * 240)" using eq by simp
    then have "(of_int (width img) :: rat) * 280 = of_int (height img) * 240" by simp
    then have "(of_int (width img) :: rat) / of_int (height img) = 6 / 7"
      using assms(3) by (simp add: field_simps)
    then have "fl (of_int (width img) / of_int (height img)) = fl (6 / 7)" by (simp only:)
    moreover have "aspect = fl (of_int (width img) / of_int (height img))"
      using g(1) assms(3) by (simp add: int_truediv_def)
    ultimately have a: "aspect = 7720456504063707 / 9007199254740992"
      by (simp only: fl_6_7)
    have "nw = 240 \<and> nh = \<lfloor>fl (240 / aspect)\<rfloor> \<and> ox = 0 \<and> oy = (nh - 280) div 2"
      using g(3) unfolding a by simp
    then show ?thesis unfolding a fl_240_c by simp
  qed
  have n: ?numpy by (rule render_ndarray)
  have p: ?pillow unfolding c LCD_WIDTH_def LCD_HEIGHT_def using g o e by blast
  show ?thesis using n p by (rule conjI)
qed

theorem render_scale_crop_witness:
  "0 < width image_500_300 \<and> width image_500_300 \<le> C_INT_MAX \<and>
   0 < height image_500_300 \<and> height image_500_300 \<le> C_INT_MAX \<and>
   0 < width image_240_280 \<and> width image_240_280 \<le> C_INT_MAX \<and>
   0 < height image_240_280 \<and> height image_240_280 \<le> C_INT_MAX \<and>
   width image_240_280 * 280 = height image_240_280 * 240 \<and>
   roomy 466 280 \<and> roomy 240 280 \<and>
   (\<exists>resized.
     pil_resize black roomy image_500_300 466 280 = Inr resized \<and>
     render black roomy board0 (PilImage image_500_300) =
       draw_image board0 0 0 240 280
         (concat (map (\<lambda>y. concat (map (\<lambda>x.
            encode_pixel (pixels resized (x + 113) (y + 0))) [0 .. 239])) [0 .. 279]))) \<and>
   (\<exists>resized.
     pil_resize black roomy image_240_280 240 280 = Inr resized \<and>
     render black roomy board0 (PilImage image_240_280) =
       draw_image board0 0 0 240 280
         (concat (map (\<lambda>y. concat (map (\<lambda>x.
            encode_pixel (pixels resized (x + 0) (y + 0))) [0 .. 239])) [0 .. 279]))) \<and>
   render black roomy board0 NdArray = (Some NameError, board0)"
proof -
  have a: "0 < width image_500_300" "width image_500_300 \<le> C_INT_MAX"
    "0 < height image_500_300" "height image_500_300 \<le> C_INT_MAX"
    by (simp_all add: image_500_300_def C_INT_MAX_def)
  have b: "0 < width image_240_280" "width image_240_280 \<le> C_INT_MAX"
    "0 < height image_240_280" "height image_240_280 \<le> C_INT_MAX"
    by (simp_all add: image_240_280_def C_INT_MAX_def)
  have q: "width image_240_280 * 280 = height image_240_280 * 240"
    by (simp add: image_240_280_def)
  have f: "roomy 466 280" "roomy 240 280" by (simp_all add: roomy_def)
  have s: "scale_box (width image_500_300) (height image_500_300) LCD_WIDTH LCD_HEIGHT =
     Inr ((466, 280), (113, 0, 353, 280))"
    using scale_box_500_300 by (simp add: image_500_300_def LCD_WIDTH_def LCD_HEIGHT_def)
  from render_scale_crop [OF a, of black roomy board0] obtain nw nh ox oy where
    n: "render black roomy board0 NdArray = (Some NameError, board0)"
    and sb: "scale_box (width image_500_300) (height image_500_300) LCD_WIDTH LCD_HEIGHT =
           Inr ((nw, nh), (ox, oy, ox + 240, oy + 280))"
    and o: "if C_INT_MAX < nw \<or> C_INT_MAX < nh
      then render black roomy board0 (PilImage image_500_300) = (Some OverflowError, board0)
      else if \<not> roomy nw nh
      then render black roomy board0 (PilImage image_500_300) = (Some MemoryError, board0)
      else \<exists>resized.
        pil_resize black roomy image_500_300 nw nh = Inr resized \<and>
        width resized = nw \<and> height resized = nh \<and>
        render black roomy board0 (PilImage image_500_300) =
          draw_image board0 0 0 240 280
            (concat (map (\<lambda>y. concat (map (\<lambda>x.
               encode_pixel (pixels resized (x + ox) (y + oy))) [0 .. 239])) [0 .. 279]))"
    by blast
  from sb s have e: "nw = 466" "nh = 280" "ox = 113" "oy = 0" by simp_all
  have c: "\<not> (C_INT_MAX < nw \<or> C_INT_MAX < nh)" "\<not> \<not> roomy nw nh"
    by (simp_all add: e C_INT_MAX_def roomy_def)
  from o obtain resized where
    "pil_resize black roomy image_500_300 nw nh = Inr resized"
    "width resized = nw" "height resized = nh"
    "render black roomy board0 (PilImage image_500_300) =
          draw_image board0 0 0 240 280
            (concat (map (\<lambda>y. concat (map (\<lambda>x.
               encode_pixel (pixels resized (x + ox) (y + oy))) [0 .. 239])) [0 .. 279]))"
    unfolding if_not_P [OF c(1)] if_not_P [OF c(2)] by blast
  then have x1: "\<exists>resized.
     pil_resize black roomy image_500_300 466 280 = Inr resized \<and>
     render black roomy board0 (PilImage image_500_300) =
       draw_image board0 0 0 240 280
         (concat (map (\<lambda>y. concat (map (\<lambda>x.
            encode_pixel (pixels resized (x + 113) (y + 0))) [0 .. 239])) [0 .. 279]))"
    unfolding e by (intro exI conjI)
  from render_scale_crop [OF b, of black roomy board0] obtain nw' nh' ox' oy' where
    h: "width image_240_280 * 280 = height image_240_280 * 240 \<longrightarrow>
          nw' = 240 \<and> nh' = 280 \<and> ox' = 0 \<and> oy' = 0"
    and o': "if C_INT_MAX < nw' \<or> C_INT_MAX < nh'
      then render black roomy board0 (PilImage image_240_280) = (Some OverflowError, board0)
      else if \<not> roomy nw' nh'
      then render black roomy board0 (PilImage image_240_280) = (Some MemoryError, board0)
      else \<exists>resized.
        pil_resize black roomy image_240_280 nw' nh' = Inr resized \<and>
        width resized = nw' \<and> height resized = nh' \<and>
        render black roomy board0 (PilImage image_240_280) =
          draw_image board0 0 0 240 280
            (concat (map (\<lambda>y. concat (map (\<lambda>x.
               encode_pixel (pixels resized (x + ox') (y + oy'))) [0 .. 239])) [0 .. 279]))"
    by blast
  from h q have e': "nw' = 240" "nh' = 280" "ox' = 0" "oy' = 0" by blast+
  have c': "\<not> (C_INT_MAX < nw' \<or> C_INT_MAX < nh')" "\<not> \<not> roomy nw' nh'"
    by (simp_all add: e' C_INT_MAX_def roomy_def)
  from o' obtain resized' where
    "pil_resize black roomy image_240_280 nw' nh' = Inr resized'"
    "width resized' = nw'" "height resized' = nh'"
    "render black roomy board0 (PilImage image_240_280) =
          draw_image board0 0 0 240 280
            (concat (map (\<lambda>y. concat (map (\<lambda>x.
               encode_pixel (pixels resized' (x + ox') (y + oy'))) [0 .. 239])) [0 .. 279]))"
    unfolding if_not_P [OF c'(1)] if_not_P [OF c'(2)] by blast
  then have x2: "\<exists>resized.
     pil_resize black roomy image_240_280 240 280 = Inr resized \<and>
     render black roomy board0 (PilImage image_240_280) =
       draw_image board0 0 0 240 280
         (concat (map (\<lambda>y. concat (map (\<lambda>x.
            encode_pixel (pixels resized (x + 0) (y + 0))) [0 .. 239])) [0 .. 279]))"
    unfolding e' by (intro exI conjI)
  show ?thesis using a b q f x1 x2 n by (intro conjI)
qed

end
